theory Spec2Isabelle
  imports Complex_Main "HOL-Library.Word" "HOL-Library.Multiset" "HOL-Library.Log_Nat"
begin

unbundle bit_operations_syntax

section \<open>Device configuration (device\_conf.h)\<close>

definition PAGE_SIZE :: nat where
  "PAGE_SIZE = 4096"

definition CACHELINE_SIZE :: nat where
  "CACHELINE_SIZE = 64"

definition CACHE_GROUP_SIZE :: nat where
  "CACHE_GROUP_SIZE = PAGE_SIZE div CACHELINE_SIZE"

definition L1_SETS :: "32 word" where "L1_SETS = 64"
definition L1_ASSOCIATIVITY :: "32 word" where "L1_ASSOCIATIVITY = 8"
definition L1_ACCESS_TIME :: "32 word" where "L1_ACCESS_TIME = 4"

definition L2_SETS :: "32 word" where "L2_SETS = 512"
definition L2_ASSOCIATIVITY :: "32 word" where "L2_ASSOCIATIVITY = 8"
definition L2_ACCESS_TIME :: "32 word" where "L2_ACCESS_TIME = 12"

definition L3_ACCESS_TIME :: "32 word" where "L3_ACCESS_TIME = 30"


section \<open>Data model (cache\_types.h)\<close>

text \<open>
  Pointers are 64-bit addresses; the null pointer is address 0. The heap maps the address
  of every live cacheline to its contents. An access through a pointer that is null or not
  live is a fault of the program, as is a failed \<^verbatim>\<open>assert\<close>, an array access out of
  range, a division by zero and the use of an array element that was never written.
\<close>

type_synonym addr = "64 word"

datatype fault = Segfault | AssertFail | OutOfBounds | DivideByZero | Uninitialised

text \<open>\<^verbatim>\<open>enum cache_level {L1, L2}\<close>: a C enumeration is an integer type, so a caller can
  pass any other integer as well.\<close>

type_synonym cache_level = int

definition L1 :: cache_level where "L1 = 0"
definition L2 :: cache_level where "L2 = 1"

datatype addressing_type = VIRTUAL | PHYSICAL

definition L1_ADDRESSING :: addressing_type where "L1_ADDRESSING = VIRTUAL"
definition L2_ADDRESSING :: addressing_type where "L2_ADDRESSING = PHYSICAL"

record cache_ctx =
  cache_level :: cache_level
  addressing :: addressing_type
  sets :: "32 word"
  associativity :: "32 word"
  access_time :: "32 word"
  nr_of_cachelines :: "32 word"
  set_size :: "32 word"
  cache_size :: "32 word"

record cacheline =
  "next" :: addr
  prev :: addr
  cache_set :: "16 word"
  flags :: "16 word"
  time_msrmt :: "32 word"

text \<open>A cacheline of zero bytes, as \<^verbatim>\<open>memset\<close> and \<^verbatim>\<open>calloc\<close> leave it.\<close>

definition cl0 :: cacheline where
  "cl0 = \<lparr>next = 0, prev = 0, cache_set = 0, flags = 0, time_msrmt = 0\<rparr>"

type_synonym heap = "addr \<Rightarrow> cacheline option"

definition bindE :: "fault + 'a \<Rightarrow> ('a \<Rightarrow> fault + 'b) \<Rightarrow> fault + 'b" where
  "bindE m f = (case m of Inl e \<Rightarrow> Inl e | Inr x \<Rightarrow> f x)"

text \<open>Field reads \<^verbatim>\<open>p->next\<close>, \<^verbatim>\<open>p->prev\<close> and field writes \<^verbatim>\<open>p->next = v\<close>,
  \<^verbatim>\<open>p->prev = v\<close>.\<close>

definition get_next :: "heap \<Rightarrow> addr \<Rightarrow> fault + addr" where
  "get_next h p = (case h p of None \<Rightarrow> Inl Segfault | Some c \<Rightarrow> Inr (next c))"

definition get_prev :: "heap \<Rightarrow> addr \<Rightarrow> fault + addr" where
  "get_prev h p = (case h p of None \<Rightarrow> Inl Segfault | Some c \<Rightarrow> Inr (prev c))"

definition set_next :: "heap \<Rightarrow> addr \<Rightarrow> addr \<Rightarrow> fault + heap" where
  "set_next h p v =
     (case h p of None \<Rightarrow> Inl Segfault | Some c \<Rightarrow> Inr (h(p \<mapsto> c\<lparr>next := v\<rparr>)))"

definition set_prev :: "heap \<Rightarrow> addr \<Rightarrow> addr \<Rightarrow> fault + heap" where
  "set_prev h p v =
     (case h p of None \<Rightarrow> Inl Segfault | Some c \<Rightarrow> Inr (h(p \<mapsto> c\<lparr>prev := v\<rparr>)))"

section \<open>Cache context\<close>

text \<open>
  \<^verbatim>\<open>get_cache_ctx\<close>: \<open>malloc_ok\<close> says whether the allocation of the descriptor
  succeeded (\<^verbatim>\<open>assert(ctx)\<close>). The result \<open>None\<close> is the null pointer.
\<close>

definition get_cache_ctx :: "bool \<Rightarrow> cache_level \<Rightarrow> fault + cache_ctx option" where
  "get_cache_ctx malloc_ok lvl =
     (if \<not> malloc_ok then Inl AssertFail
      else if lvl = L1 then
        (let s = L1_SETS; a = L1_ASSOCIATIVITY; ssz = of_nat CACHELINE_SIZE * a in
         Inr (Some \<lparr>cache_level = lvl, addressing = L1_ADDRESSING, sets = s,
                    associativity = a, access_time = L1_ACCESS_TIME,
                    nr_of_cachelines = s * a, set_size = ssz, cache_size = s * ssz\<rparr>))
      else if lvl = L2 then
        (let s = L2_SETS; a = L2_ASSOCIATIVITY; ssz = of_nat CACHELINE_SIZE * a in
         Inr (Some \<lparr>cache_level = lvl, addressing = L2_ADDRESSING, sets = s,
                    associativity = a, access_time = L2_ACCESS_TIME,
                    nr_of_cachelines = s * a, set_size = ssz, cache_size = s * ssz\<rparr>))
      else Inr None)"

section \<open>Cacheline list operations\<close>

text \<open>\<^verbatim>\<open>cl_replace(new_cl, old_cl)\<close>, statement by statement.\<close>

definition cl_replace :: "heap \<Rightarrow> addr \<Rightarrow> addr \<Rightarrow> fault + heap" where
  "cl_replace h new_cl old_cl =
     bindE (get_next h old_cl) (\<lambda>n.
     bindE (set_prev h n new_cl) (\<lambda>h1.
     bindE (get_prev h1 old_cl) (\<lambda>p.
     bindE (set_next h1 p new_cl) (\<lambda>h2.
     bindE (get_next h2 old_cl) (\<lambda>n2.
     bindE (set_next h2 new_cl n2) (\<lambda>h3.
     bindE (get_prev h3 old_cl) (\<lambda>p2.
     set_prev h3 new_cl p2)))))))"

text \<open>\<^verbatim>\<open>cl_insert(last_cl, new_cl)\<close>.\<close>

definition cl_insert :: "heap \<Rightarrow> addr \<Rightarrow> addr \<Rightarrow> fault + heap" where
  "cl_insert h last_cl new_cl =
     (if last_cl = 0 then
        bindE (set_next h new_cl new_cl) (\<lambda>h1. set_prev h1 new_cl new_cl)
      else
        bindE (get_next h last_cl) (\<lambda>n.
        bindE (set_next h new_cl n) (\<lambda>h1.
        bindE (set_prev h1 new_cl last_cl) (\<lambda>h2.
        bindE (get_next h2 last_cl) (\<lambda>n2.
        bindE (set_prev h2 n2 new_cl) (\<lambda>h3.
        set_next h3 last_cl new_cl))))))"

section \<open>Prime and probe primitives (cache.h)\<close>

text \<open>
  The loops of \<^verbatim>\<open>prime\<close> and \<^verbatim>\<open>prime_rev\<close> run until the walk is back at \<open>head\<close>, which
  need not happen: they are partial functions, \<open>None\<close> meaning that the loop runs for
  ever. The purpose of both functions is their memory accesses, so next to the returned
  pointer the model records the lines the loop loads from, in order. The serialising
  instructions (\<^verbatim>\<open>cpuid\<close>, \<^verbatim>\<open>mfence\<close>) have no effect on the heap.
\<close>

partial_function (option) prime_loop ::
  "heap \<Rightarrow> addr \<Rightarrow> addr \<Rightarrow> addr list \<Rightarrow> (fault + addr list) option" where
  "prime_loop h head curr_cl tr =
     (case get_next h curr_cl of
        Inl e \<Rightarrow> Some (Inl e)
      | Inr c \<Rightarrow> if c \<noteq> head then prime_loop h head c (tr @ [curr_cl])
                 else Some (Inr (tr @ [curr_cl])))"

definition prime :: "heap \<Rightarrow> addr \<Rightarrow> (fault + addr list \<times> addr) option" where
  "prime h head =
     (case prime_loop h head head [] of
        None \<Rightarrow> None
      | Some (Inl e) \<Rightarrow> Some (Inl e)
      | Some (Inr tr) \<Rightarrow>
          Some (bindE (get_prev h head) (\<lambda>p. Inr (tr, p))))"

partial_function (option) prime_rev_loop ::
  "heap \<Rightarrow> addr \<Rightarrow> addr \<Rightarrow> addr list \<Rightarrow> (fault + addr list) option" where
  "prime_rev_loop h head curr_cl tr =
     (case get_prev h curr_cl of
        Inl e \<Rightarrow> Some (Inl e)
      | Inr c \<Rightarrow> if c \<noteq> head then prime_rev_loop h head c (tr @ [curr_cl])
                 else Some (Inr (tr @ [curr_cl])))"

definition prime_rev :: "heap \<Rightarrow> addr \<Rightarrow> (fault + addr list \<times> addr) option" where
  "prime_rev h head =
     (case prime_rev_loop h head head [] of
        None \<Rightarrow> None
      | Some (Inl e) \<Rightarrow> Some (Inl e)
      | Some (Inr tr) \<Rightarrow>
          Some (bindE (get_prev h head) (\<lambda>p. Inr (tr, p))))"


section \<open>Length of a structure (cache\_types.h)\<close>

text \<open>\<^verbatim>\<open>get_cache_ds_len\<close>: counts in a \<^verbatim>\<open>uint32_t\<close> while walking \<open>prev\<close> pointers.\<close>

partial_function (option) get_cache_ds_len_loop ::
  "heap \<Rightarrow> addr \<Rightarrow> addr \<Rightarrow> 32 word \<Rightarrow> (fault + 32 word) option" where
  "get_cache_ds_len_loop h cache_ds curr_cl cnt =
     (if curr_cl = 0 then Some (Inr cnt)
      else case get_prev h curr_cl of
        Inl e \<Rightarrow> Some (Inl e)
      | Inr c \<Rightarrow> if c \<noteq> cache_ds then get_cache_ds_len_loop h cache_ds c (cnt + 1)
                 else Some (Inr (cnt + 1)))"

definition get_cache_ds_len :: "heap \<Rightarrow> addr \<Rightarrow> (fault + 32 word) option" where
  "get_cache_ds_len h cache_ds = get_cache_ds_len_loop h cache_ds cache_ds 0"

section \<open>Release of a structure (cache.c)\<close>

text \<open>
  The allocator state: the live cachelines and the blocks handed out by \<^verbatim>\<open>aligned_alloc\<close>,
  each with its size in bytes. \<^verbatim>\<open>free(p)\<close> does nothing for the null pointer, ends the
  life of the block that starts at \<open>p\<close> and of every cacheline inside it, and is a fault
  for any other pointer.
\<close>

record mem =
  lines :: heap
  blocks :: "addr \<Rightarrow> nat option"

definition free_block :: "mem \<Rightarrow> addr \<Rightarrow> fault + mem" where
  "free_block m p =
     (if p = 0 then Inr m
      else case blocks m p of
        None \<Rightarrow> Inl Segfault
      | Some sz \<Rightarrow>
          Inr (m\<lparr>lines := (\<lambda>a. if unat p \<le> unat a \<and> unat a < unat p + sz then None
                               else lines m a),
                 blocks := (blocks m)(p := None)\<rparr>))"

fun free_all :: "mem \<Rightarrow> addr list \<Rightarrow> fault + mem" where
  "free_all m [] = Inr m"
| "free_all m (p # ps) = bindE (free_block m p) (\<lambda>m'. free_all m' ps)"

text \<open>\<^verbatim>\<open>SET_MASK(SETS)\<close>, \<^verbatim>\<open>remove_cache_set\<close> and \<^verbatim>\<open>remove_cache_group_set\<close>.\<close>

definition SET_MASK :: "addr \<Rightarrow> addr" where
  "SET_MASK s = ((s * of_nat CACHELINE_SIZE) - 1) XOR (of_nat CACHELINE_SIZE - 1)"

definition remove_cache_set :: "cache_ctx \<Rightarrow> addr \<Rightarrow> addr" where
  "remove_cache_set ctx ptr = ptr AND NOT (SET_MASK (ucast (sets ctx)))"

definition remove_cache_group_set :: "addr \<Rightarrow> addr" where
  "remove_cache_group_set ptr = ptr AND NOT (SET_MASK (of_nat CACHE_GROUP_SIZE))"

text \<open>
  The \<^verbatim>\<open>do ... while\<close> loop of the physical branch collects the distinct page bases in
  the array \<^verbatim>\<open>ptrs_to_free\<close>, which has room for \<open>cap\<close> pointers.
\<close>

partial_function (option) release_collect ::
  "heap \<Rightarrow> addr \<Rightarrow> nat \<Rightarrow> addr \<Rightarrow> addr list \<Rightarrow> (fault + addr list) option" where
  "release_collect h cache_ds cap curr_cl ptrs_to_free =
     (case get_next h curr_cl of
        Inl e \<Rightarrow> Some (Inl e)
      | Inr next_cl \<Rightarrow>
          (let cl_base = remove_cache_group_set curr_cl in
           if cl_base \<in> set ptrs_to_free then
             (if next_cl \<noteq> cache_ds
              then release_collect h cache_ds cap next_cl ptrs_to_free
              else Some (Inr ptrs_to_free))
           else if cap \<le> length ptrs_to_free then Some (Inl OutOfBounds)
           else
             (if next_cl \<noteq> cache_ds
              then release_collect h cache_ds cap next_cl (ptrs_to_free @ [cl_base])
              else Some (Inr (ptrs_to_free @ [cl_base])))))"

text \<open>\<^verbatim>\<open>release_cache_ds\<close>; \<open>malloc_ok\<close> says whether the allocation of \<^verbatim>\<open>ptrs_to_free\<close>
  succeeds.\<close>

definition release_cache_ds ::
  "bool \<Rightarrow> cache_ctx \<Rightarrow> mem \<Rightarrow> addr \<Rightarrow> (fault + mem) option" where
  "release_cache_ds malloc_ok ctx m cache_ds =
     (if cache_ds = 0 then Some (Inr m)
      else if addressing ctx = VIRTUAL then
        Some (free_block m (remove_cache_set ctx cache_ds))
      else if \<not> malloc_ok then Some (Inl AssertFail)
      else
        (case release_collect (lines m) cache_ds
                (unat (cache_size ctx div of_nat PAGE_SIZE)) cache_ds [] of
           None \<Rightarrow> None
         | Some (Inl e) \<Rightarrow> Some (Inl e)
         | Some (Inr ptrs) \<Rightarrow> Some (free_all m ptrs)))"

text \<open>\<^verbatim>\<open>release_cache_set_ds\<close>.\<close>

definition release_cache_set_ds ::
  "bool \<Rightarrow> cache_ctx \<Rightarrow> mem \<Rightarrow> addr \<Rightarrow> (fault + mem) option" where
  "release_cache_set_ds malloc_ok ctx m cache_set_ds =
     (if addressing ctx = VIRTUAL then
        Some (free_block m (remove_cache_set ctx cache_set_ds))
      else release_cache_ds malloc_ok ctx m cache_set_ds)"

section \<open>Rings of cachelines\<close>

text \<open>
  \<open>ring h xs\<close>: the distinct live lines \<open>xs\<close> form a cyclic doubly linked list in the
  heap \<open>h\<close>, in this order: the \<open>next\<close> pointer of each line is the following line of
  \<open>xs\<close>, that of the last line is the first line, and the \<open>prev\<close> pointers are the
  inverse. The entry line of the ring is \<open>hd xs\<close>.
\<close>

definition ring :: "heap \<Rightarrow> addr list \<Rightarrow> bool" where
  "ring h xs \<longleftrightarrow>
     xs \<noteq> [] \<and> distinct xs \<and> 0 \<notin> set xs \<and>
     (\<forall>i<length xs.
        case h (xs ! i) of
          None \<Rightarrow> False
        | Some c \<Rightarrow> next c = xs ! (Suc i mod length xs) \<and>
                    prev c = xs ! ((i + length xs - 1) mod length xs))"

section \<open>Utilities (util.c)\<close>

text \<open>
  \<^verbatim>\<open>rand()\<close> is an input: \<open>rnd k\<close> is the value of the \<open>k\<close>-th call, a non-negative
  \<^verbatim>\<open>int\<close>, which the mixed expression \<^verbatim>\<open>rand() % i\<close> converts to \<^verbatim>\<open>uint32_t\<close>. Functions
  that call \<^verbatim>\<open>rand()\<close> take the number of calls made so far and return the new number.
  An array is the list of its elements; an access beyond its end is a fault.
\<close>

type_synonym rand_source = "nat \<Rightarrow> 32 word"

text \<open>\<^verbatim>\<open>swap(arr + i, arr + j)\<close>.\<close>

definition swap :: "32 word list \<Rightarrow> nat \<Rightarrow> nat \<Rightarrow> fault + 32 word list" where
  "swap arr i j =
     (if i < length arr \<and> j < length arr
      then (let tmp = arr ! i; arr1 = arr[i := arr ! j] in Inr (arr1[j := tmp]))
      else Inl OutOfBounds)"

text \<open>The loop of \<^verbatim>\<open>random_perm\<close>: \<^verbatim>\<open>for (uint32_t i = arr_len - 1; i > 0; --i)\<close>.\<close>

function random_perm_loop ::
  "rand_source \<Rightarrow> 32 word list \<Rightarrow> 32 word \<Rightarrow> nat \<Rightarrow> fault + 32 word list \<times> nat" where
  "random_perm_loop rnd arr i k =
     (if 0 < i then
        (let swap_idx = rnd k mod i in
         case swap arr (unat i) (unat swap_idx) of
           Inl e \<Rightarrow> Inl e
         | Inr arr' \<Rightarrow> random_perm_loop rnd arr' (i - 1) (Suc k))
      else Inr (arr, k))"
  by pat_completeness auto
termination
  by (relation "measure (\<lambda>(rnd, arr, i, k). unat i)")
     (auto simp add: unat_minus_one word_greater_zero_iff unat_gt_0)

declare random_perm_loop.simps [simp del]

definition random_perm ::
  "rand_source \<Rightarrow> 32 word list \<Rightarrow> 32 word \<Rightarrow> nat \<Rightarrow> fault + 32 word list \<times> nat" where
  "random_perm rnd arr arr_len k = random_perm_loop rnd arr (arr_len - 1) k"

text \<open>The loop of \<^verbatim>\<open>gen_random_indices\<close>: \<^verbatim>\<open>for (uint32_t i = 0; i < arr_len; ++i)\<close>.\<close>

function fill_indices :: "32 word list \<Rightarrow> 32 word \<Rightarrow> 32 word \<Rightarrow> fault + 32 word list" where
  "fill_indices arr i arr_len =
     (if i < arr_len then
        (if unat i < length arr then fill_indices (arr[unat i := i]) (i + 1) arr_len
         else Inl OutOfBounds)
      else Inr arr)"
  by pat_completeness auto
termination
proof (relation "measure (\<lambda>(arr, i, arr_len). unat arr_len - unat i)")
  fix arr :: "32 word list" and i arr_len :: "32 word"
  assume "i < arr_len"
  then have "unat i < unat arr_len" by (simp add: word_less_nat_alt)
  moreover have "unat arr_len < 4294967296" using unsigned_less [of arr_len, where ?'a = nat] by simp
  ultimately have "unat (i + 1) = Suc (unat i)" by (simp add: unat_word_ariths)
  then show "((arr[unat i := i], i + 1, arr_len), arr, i, arr_len)
               \<in> measure (\<lambda>(arr, i, arr_len). unat arr_len - unat i)"
    using \<open>unat i < unat arr_len\<close> by simp
qed simp

declare fill_indices.simps [simp del]

definition gen_random_indices ::
  "rand_source \<Rightarrow> 32 word list \<Rightarrow> 32 word \<Rightarrow> nat \<Rightarrow> fault + 32 word list \<times> nat" where
  "gen_random_indices rnd arr arr_len k =
     (case fill_indices arr 0 arr_len of
        Inl e \<Rightarrow> Inl e
      | Inr arr' \<Rightarrow> random_perm rnd arr' arr_len k)"

text \<open>
  The shuffle in the words of the specification: for each \<open>i\<close> from \<open>n - 1\<close> down to
  1, in this order, swap the positions \<open>i\<close> and \<open>rand() mod i\<close>.
\<close>

definition shuffle_steps :: "rand_source \<Rightarrow> nat \<Rightarrow> nat \<Rightarrow> (nat \<times> nat) list" where
  "shuffle_steps rnd k n =
     map (\<lambda>j. (n - 1 - j, unat (rnd (k + j)) mod (n - 1 - j))) [0..<n - 1]"

definition exchange :: "'a list \<Rightarrow> nat \<times> nat \<Rightarrow> 'a list" where
  "exchange xs ij = (xs[fst ij := xs ! snd ij])[snd ij := xs ! fst ij]"

definition shuffle_spec :: "rand_source \<Rightarrow> nat \<Rightarrow> 32 word list \<Rightarrow> 32 word list" where
  "shuffle_spec rnd k arr = foldl exchange arr (shuffle_steps rnd k (length arr))"

section \<open>Address translation (addr\_translation.c)\<close>

text \<open>
  What the operating system contributes: the page size returned by \<^verbatim>\<open>sysconf\<close>,
  whether \<^verbatim>\<open>open\<close> of the pagemap file succeeds, and the behaviour of \<^verbatim>\<open>pread\<close>:
  \<open>pread os n count offset\<close> is the outcome of the \<open>n\<close>-th call, with the given
  byte count and file offset: the return value and the bytes read, held little-endian
  in the low bytes of a 64-bit word.
\<close>

record os =
  page_size :: "64 word"
  open_ok :: bool
  pread :: "nat \<Rightarrow> nat \<Rightarrow> 64 word \<Rightarrow> int \<times> 64 word"

record PagemapEntry =
  pfn :: "64 word"
  soft_dirty :: bool
  file_page :: bool
  swapped :: bool
  present :: bool

text \<open>\<^verbatim>\<open>pread(fd, &data, ...)\<close> overwrites the first \<open>n\<close> bytes of \<^verbatim>\<open>data\<close>.\<close>

definition store_bytes :: "64 word \<Rightarrow> nat \<Rightarrow> 64 word \<Rightarrow> 64 word" where
  "store_bytes data n v =
     (if 8 \<le> n then v else (data AND NOT (mask (8 * n))) OR (v AND mask (8 * n)))"

text \<open>The read loop of \<^verbatim>\<open>pagemap_get_entry\<close>; \<open>None\<close> is its \<^verbatim>\<open>return 1\<close>.\<close>

function pagemap_read :: "os \<Rightarrow> 64 word \<Rightarrow> nat \<Rightarrow> nat \<Rightarrow> 64 word \<Rightarrow> 64 word option" where
  "pagemap_read os vpn nread n data =
     (if nread < 8 then
        (let (ret, v) = pread os n (8 - nread) (vpn * 8 + of_nat nread) in
         if ret \<le> 0 then None
         else pagemap_read os vpn (nread + nat ret) (Suc n) (store_bytes data (nat ret) v))
      else Some data)"
  by pat_completeness auto
termination
  by (relation "measure (\<lambda>(os, vpn, nread, n, data). 8 - nread)") auto

declare pagemap_read.simps [simp del]

text \<open>
  \<^verbatim>\<open>pagemap_get_entry\<close>: \<open>data0\<close> is the indeterminate initial value of the local
  variable \<^verbatim>\<open>data\<close>. A page size of zero makes the division a fault.
\<close>

definition pagemap_get_entry :: "os \<Rightarrow> 64 word \<Rightarrow> addr \<Rightarrow> fault + PagemapEntry option" where
  "pagemap_get_entry os data0 vaddr =
     (if page_size os = 0 then Inl DivideByZero
      else
        (let vpn = vaddr div page_size os in
         case pagemap_read os vpn 0 0 data0 of
           None \<Rightarrow> Inr None
         | Some data \<Rightarrow>
             Inr (Some \<lparr>pfn = data AND (push_bit 54 1 - 1),
                        soft_dirty = (drop_bit 54 data AND 1 = 1),
                        file_page = (drop_bit 61 data AND 1 = 1),
                        swapped = (drop_bit 62 data AND 1 = 1),
                        present = (drop_bit 63 data AND 1 = 1)\<rparr>)))"

text \<open>
  \<^verbatim>\<open>get_phys_addr(&paddr, vaddr)\<close>: the result is the returned \<^verbatim>\<open>int\<close> and the value of
  \<^verbatim>\<open>paddr\<close> afterwards, \<open>paddr\<close> being its value before the call.
\<close>

definition get_phys_addr :: "os \<Rightarrow> 64 word \<Rightarrow> addr \<Rightarrow> addr \<Rightarrow> fault + int \<times> addr" where
  "get_phys_addr os data0 paddr vaddr =
     (if \<not> open_ok os then Inr (1, paddr)
      else case pagemap_get_entry os data0 vaddr of
        Inl t \<Rightarrow> Inl t
      | Inr None \<Rightarrow> Inr (1, paddr)
      | Inr (Some entry) \<Rightarrow>
          if pfn entry = 0 then Inr (1, paddr)
          else Inr (0, pfn entry * page_size os + vaddr mod page_size os))"

section \<open>Collision detection (cache.c)\<close>










text \<open>Sequencing of steps that may fault or not return.\<close>

definition bindP :: "(fault + 'a) option \<Rightarrow> ('a \<Rightarrow> (fault + 'b) option) \<Rightarrow> (fault + 'b) option" where
  "bindP m f = (case m of None \<Rightarrow> None | Some (Inl e) \<Rightarrow> Some (Inl e) | Some (Inr x) \<Rightarrow> f x)"









text \<open>The exact mean, for comparison with \<open>get_avg\<close>.\<close>

definition mean :: "32 word list \<Rightarrow> rat" where
  "mean ts = of_nat (sum_list (map unat ts)) / of_nat (length ts)"

section \<open>Cache set of an address (cache\_types.h)\<close>

text \<open>\<^verbatim>\<open>get_cache_set_helper\<close> and \<^verbatim>\<open>get_virt_cache_set\<close>.\<close>

definition get_cache_set_helper :: "32 word \<Rightarrow> addr \<Rightarrow> 16 word" where
  "get_cache_set_helper s ptr = ucast ((ptr AND SET_MASK (ucast s)) div of_nat CACHELINE_SIZE)"

definition get_virt_cache_set :: "cache_ctx \<Rightarrow> addr \<Rightarrow> 16 word" where
  "get_virt_cache_set ctx ptr = get_cache_set_helper (sets ctx) ptr"

text \<open>
  \<^verbatim>\<open>get_phys_cache_set\<close>: asserts that the translation succeeds and that the physical
  address is not zero. The local variable \<^verbatim>\<open>paddr\<close> is only read after a successful
  translation has written it.
\<close>

definition get_phys_cache_set :: "cache_ctx \<Rightarrow> os \<Rightarrow> 64 word \<Rightarrow> addr \<Rightarrow> fault + 16 word" where
  "get_phys_cache_set ctx os data0 ptr =
     (case get_phys_addr os data0 0 ptr of
        Inl e \<Rightarrow> Inl e
      | Inr (ret, paddr) \<Rightarrow>
          if ret \<noteq> 0 then Inl AssertFail
          else if paddr = 0 then Inl AssertFail
          else Inr (get_cache_set_helper (sets ctx) paddr))"

section \<open>Privileged builder for physically indexed caches (cache.c)\<close>

text \<open>
  The variables of \<^verbatim>\<open>allocate_cache_ds_phys_priv\<close>: the heap, the array \<^verbatim>\<open>cl_ptr_arr\<close> of
  the caller (\<open>nr_of_cachelines\<close> pointers), the index into it, the per-set counters
  and the list of pages to release, which is threaded through the \<open>prev\<close> pointers.
\<close>

record priv_state =
  memory :: heap
  cl_ptr_arr :: "addr list"
  cl_ptr_idx :: "32 word"
  cnt_lines_per_set :: "32 word list"
  cls_to_del :: addr

text \<open>Sequential execution of a loop body over the values of the loop variable.\<close>

fun foldE :: "('a \<Rightarrow> 's \<Rightarrow> fault + 's) \<Rightarrow> 'a list \<Rightarrow> 's \<Rightarrow> fault + 's" where
  "foldE f [] s = Inr s"
| "foldE f (x # xs) s = bindE (f x s) (foldE f xs)"

text \<open>The address of \<^verbatim>\<open>cl_candidates + i\<close>, and \<^verbatim>\<open>memset(cl_candidates, 0, PAGE_SIZE)\<close>,
  which also starts the life of the lines of the fresh page.\<close>

definition line_at :: "addr \<Rightarrow> nat \<Rightarrow> addr" where
  "line_at cl_candidates i = cl_candidates + of_nat (i * CACHELINE_SIZE)"

definition zero_page :: "heap \<Rightarrow> addr \<Rightarrow> heap" where
  "zero_page m cl_candidates =
     (\<lambda>a. if a \<in> line_at cl_candidates ` {0..<CACHE_GROUP_SIZE} then Some cl0 else m a)"

text \<open>The body of the inner \<^verbatim>\<open>for\<close> loop, for the line \<open>i\<close> of the page.\<close>

definition priv_accept_line ::
  "cache_ctx \<Rightarrow> os \<Rightarrow> 64 word \<Rightarrow> addr \<Rightarrow> nat \<Rightarrow> priv_state \<Rightarrow> fault + priv_state" where
  "priv_accept_line ctx os data0 cl_candidates i st =
     (let ptr = line_at cl_candidates i in
      bindE (get_phys_cache_set ctx os data0 ptr) (\<lambda>s.
      case memory st ptr of
        None \<Rightarrow> Inl Segfault
      | Some c \<Rightarrow>
          if length (cl_ptr_arr st) \<le> unat (cl_ptr_idx st) then Inl OutOfBounds
          else if length (cnt_lines_per_set st) \<le> unat s then Inl OutOfBounds
          else Inr (st\<lparr>memory := (memory st)(ptr \<mapsto> c\<lparr>cache_set := s\<rparr>),
                       cl_ptr_arr := (cl_ptr_arr st)[unat (cl_ptr_idx st) := ptr],
                       cl_ptr_idx := cl_ptr_idx st + 1,
                       cnt_lines_per_set :=
                         (cnt_lines_per_set st)[unat s := cnt_lines_per_set st ! unat s + 1]\<rparr>)))"

text \<open>
  The body of the \<^verbatim>\<open>while\<close> loop for the page that \<^verbatim>\<open>aligned_alloc\<close> returned
  (\<open>cl_candidates\<close>, null when the allocation failed).
\<close>

definition priv_page ::
  "cache_ctx \<Rightarrow> os \<Rightarrow> 64 word \<Rightarrow> priv_state \<Rightarrow> addr \<Rightarrow> fault + priv_state" where
  "priv_page ctx os data0 st cl_candidates =
     (if cl_candidates = 0 then Inl AssertFail
      else
        (let st0 = st\<lparr>memory := zero_page (memory st) cl_candidates\<rparr> in
         bindE (get_phys_cache_set ctx os data0 cl_candidates) (\<lambda>s0.
         if length (cnt_lines_per_set st0) \<le> unat s0 then Inl OutOfBounds
         else if cnt_lines_per_set st0 ! unat s0 < associativity ctx then
           foldE (priv_accept_line ctx os data0 cl_candidates) [0..<CACHE_GROUP_SIZE] st0
         else
           bindE (set_prev (memory st0) cl_candidates (cls_to_del st0)) (\<lambda>m.
           Inr (st0\<lparr>memory := m, cls_to_del := cl_candidates\<rparr>)))))"

text \<open>
  The \<^verbatim>\<open>while\<close> loop, run on the pages that the successive calls of \<^verbatim>\<open>aligned_alloc\<close>
  return; the result is the state when the loop has ended or the pages given are used up.
\<close>

fun priv_loop ::
  "cache_ctx \<Rightarrow> os \<Rightarrow> 64 word \<Rightarrow> priv_state \<Rightarrow> addr list \<Rightarrow> fault + priv_state" where
  "priv_loop ctx os data0 st [] = Inr st"
| "priv_loop ctx os data0 st (p # ps) =
     (if cl_ptr_idx st < nr_of_cachelines ctx
      then bindE (priv_page ctx os data0 st p) (\<lambda>st'. priv_loop ctx os data0 st' ps)
      else Inr st)"

text \<open>The state at the start of the loop: \<^verbatim>\<open>cl_ptr_idx = 0\<close> and counters from \<^verbatim>\<open>calloc\<close>.\<close>

definition priv_init :: "cache_ctx \<Rightarrow> heap \<Rightarrow> addr list \<Rightarrow> addr \<Rightarrow> priv_state" where
  "priv_init ctx m arr del =
     \<lparr>memory = m, cl_ptr_arr = arr, cl_ptr_idx = 0,
      cnt_lines_per_set = replicate (unat (sets ctx)) 0, cls_to_del = del\<rparr>"

text \<open>
  What the theorems about the builders assume of the platform: the cache has a power of
  two of sets, at least one page of them and at most what the 16-bit set tag can hold,
  and \<open>nr_of_cachelines\<close> is as \<open>get_cache_ctx\<close> computes it. A page returned by
  \<^verbatim>\<open>aligned_alloc(PAGE_SIZE, ...)\<close> starts at a multiple of the page size.
\<close>

definition geometry :: "cache_ctx \<Rightarrow> nat \<Rightarrow> bool" where
  "geometry ctx k \<longleftrightarrow>
     sets ctx = 2 ^ k \<and> 6 \<le> k \<and> k \<le> 16 \<and>
     nr_of_cachelines ctx = sets ctx * associativity ctx"

definition page_aligned :: "addr \<Rightarrow> bool" where
  "page_aligned p \<longleftrightarrow> p mod of_nat PAGE_SIZE = 0"

text \<open>
  The invariant of the \<^verbatim>\<open>while\<close> loop: the arrays have their allocated lengths, the
  index is a multiple of the number of lines of a page, and the counters of the sets that
  one page covers are equal.
\<close>

definition priv_inv :: "cache_ctx \<Rightarrow> priv_state \<Rightarrow> bool" where
  "priv_inv ctx st \<longleftrightarrow>
     length (cnt_lines_per_set st) = unat (sets ctx) \<and>
     length (cl_ptr_arr st) = unat (nr_of_cachelines ctx) \<and>
     64 dvd unat (cl_ptr_idx st) \<and>
     (\<forall>g i. i < 64 \<and> 64 * g + i < unat (sets ctx) \<longrightarrow>
        cnt_lines_per_set st ! (64 * g + i) = cnt_lines_per_set st ! (64 * g))"

text \<open>
  The state after the inner \<^verbatim>\<open>for\<close> loop has accepted the first \<open>j\<close> lines of the page
  \<open>p\<close>, whose lines map to the sets \<open>64 * grp\<close>, \<open>64 * grp + 1\<close>, \<dots>, relative to
  the state \<open>st0\<close> before the loop.
\<close>

definition accepted_upto :: "addr \<Rightarrow> nat \<Rightarrow> priv_state \<Rightarrow> nat \<Rightarrow> priv_state \<Rightarrow> bool" where
  "accepted_upto p grp st0 j st \<longleftrightarrow>
     cl_ptr_idx st = cl_ptr_idx st0 + of_nat j \<and>
     cls_to_del st = cls_to_del st0 \<and>
     length (cl_ptr_arr st) = length (cl_ptr_arr st0) \<and>
     (\<forall>t<length (cl_ptr_arr st0).
        cl_ptr_arr st ! t =
          (if unat (cl_ptr_idx st0) \<le> t \<and> t < unat (cl_ptr_idx st0) + j
           then line_at p (t - unat (cl_ptr_idx st0)) else cl_ptr_arr st0 ! t)) \<and>
     length (cnt_lines_per_set st) = length (cnt_lines_per_set st0) \<and>
     (\<forall>s<length (cnt_lines_per_set st0).
        cnt_lines_per_set st ! s =
          (if 64 * grp \<le> s \<and> s < 64 * grp + j
           then cnt_lines_per_set st0 ! s + 1 else cnt_lines_per_set st0 ! s)) \<and>
     (\<forall>i<64. memory st (line_at p i) =
        Some (if i < j then cl0\<lparr>cache_set := of_nat (64 * grp + i)\<rparr> else cl0)) \<and>
     (\<forall>a. a \<notin> line_at p ` {0..<64} \<longrightarrow> memory st a = memory st0 a)"


text \<open>
  The set of the line slot \<open>i\<close> of a page in the words of the specification, from the
  pagemap entry \<open>e\<close> of the page: the frame number of the page is the low 54 bits of the
  entry, the physical address of the slot is the frame number times the page size plus
  \<open>i\<close> times the line size, and its set is the line number of this address modulo the
  number of sets.
\<close>

definition slot_set :: "cache_ctx \<Rightarrow> 64 word \<Rightarrow> nat \<Rightarrow> nat" where
  "slot_set ctx e i =
     (unat (e AND mask 54) * PAGE_SIZE + i * CACHELINE_SIZE) div CACHELINE_SIZE mod unat (sets ctx)"
section \<open>Building the randomised structure (cache.c)\<close>

text \<open>
  The array \<^verbatim>\<open>cl_ptr_arr_sorted\<close> comes from \<^verbatim>\<open>malloc\<close>: its elements are indeterminate
  (\<open>None\<close>) until they are written. The other allocations of the builder are taken to
  succeed.
\<close>

definition read_slot :: "addr option list \<Rightarrow> nat \<Rightarrow> fault + addr" where
  "read_slot arr j =
     (if length arr \<le> j then Inl OutOfBounds
      else case arr ! j of None \<Rightarrow> Inl Uninitialised | Some a \<Rightarrow> Inr a)"

text \<open>The body of the first loop of \<^verbatim>\<open>build_cache_ds\<close>, which sorts the pointers by set.\<close>

definition bucket_step ::
  "heap \<Rightarrow> 32 word \<Rightarrow> addr list \<Rightarrow> nat \<Rightarrow> addr option list \<times> 32 word list \<Rightarrow>
     fault + addr option list \<times> 32 word list" where
  "bucket_step h set_len cl_ptrs i st =
     (let cl_ptr_arr_sorted = fst st; idx_per_set = snd st in
      if length cl_ptrs \<le> i then Inl OutOfBounds
      else case h (cl_ptrs ! i) of
        None \<Rightarrow> Inl Segfault
      | Some c \<Rightarrow>
          (let set_offset = ucast (cache_set c) * set_len in
           if length idx_per_set \<le> unat (cache_set c) then Inl OutOfBounds
           else
             (let idx_curr_set = idx_per_set ! unat (cache_set c);
                  pos = unat (set_offset + idx_curr_set) in
              if length cl_ptr_arr_sorted \<le> pos then Inl OutOfBounds
              else Inr (cl_ptr_arr_sorted[pos := Some (cl_ptrs ! i)],
                        idx_per_set[unat (cache_set c) := idx_curr_set + 1]))))"

text \<open>Writes of the remaining fields of a line.\<close>

definition set_time_msrmt :: "heap \<Rightarrow> addr \<Rightarrow> 32 word \<Rightarrow> fault + heap" where
  "set_time_msrmt h p v =
     (case h p of None \<Rightarrow> Inl Segfault | Some c \<Rightarrow> Inr (h(p \<mapsto> c\<lparr>time_msrmt := v\<rparr>)))"

definition set_flags :: "heap \<Rightarrow> addr \<Rightarrow> 16 word \<Rightarrow> fault + heap" where
  "set_flags h p v =
     (case h p of None \<Rightarrow> Inl Segfault | Some c \<Rightarrow> Inr (h(p \<mapsto> c\<lparr>flags := v\<rparr>)))"

definition get_flags :: "heap \<Rightarrow> addr \<Rightarrow> fault + 16 word" where
  "get_flags h p = (case h p of None \<Rightarrow> Inl Segfault | Some c \<Rightarrow> Inr (flags c))"

definition DEFAULT_FLAGS :: "16 word" where "DEFAULT_FLAGS = 0"

definition SET_BIT :: "16 word \<Rightarrow> nat \<Rightarrow> 16 word" where
  "SET_BIT b i = b OR push_bit i 1"

definition SET_FIRST :: "16 word \<Rightarrow> 16 word" where "SET_FIRST f = SET_BIT f 0"
definition SET_LAST :: "16 word \<Rightarrow> 16 word" where "SET_LAST f = SET_BIT f 1"

text \<open>
  The body of the loop of \<^verbatim>\<open>build_randomized_list_for_cache_set\<close> for the value \<open>i\<close>
  of the 16-bit loop counter; \<open>off\<close> is the offset of \<^verbatim>\<open>cacheline_ptr_arr\<close> in
  \<^verbatim>\<open>cl_ptr_arr_sorted\<close>.
\<close>

definition idx_at :: "32 word list \<Rightarrow> 32 word \<Rightarrow> fault + 32 word" where
  "idx_at idx_map j = (if length idx_map \<le> unat j then Inl OutOfBounds else Inr (idx_map ! unat j))"

definition set_ring_body ::
  "addr option list \<Rightarrow> nat \<Rightarrow> 32 word list \<Rightarrow> 32 word \<Rightarrow> 16 word \<Rightarrow> heap \<Rightarrow> fault + heap" where
  "set_ring_body arr off idx_map len i h =
     bindE (idx_at idx_map (ucast i)) (\<lambda>ci.
     bindE (read_slot arr (off + unat ci)) (\<lambda>curr_cl.
     bindE (idx_at idx_map ((ucast i + 1) mod len)) (\<lambda>ni.
     bindE (read_slot arr (off + unat ni)) (\<lambda>n.
     bindE (set_next h curr_cl n) (\<lambda>h1.
     bindE (idx_at idx_map ((len - 1 + ucast i) mod len)) (\<lambda>pi.
     bindE (read_slot arr (off + unat pi)) (\<lambda>p.
     bindE (set_prev h1 curr_cl p) (\<lambda>h2.
     bindE (set_time_msrmt h2 curr_cl 0) (\<lambda>h3.
     bindE (read_slot arr off) (\<lambda>first.
     if curr_cl = first then
       bindE (set_flags h3 curr_cl (SET_FIRST DEFAULT_FLAGS)) (\<lambda>h4.
       bindE (get_prev h4 curr_cl) (\<lambda>q.
       set_flags h4 q (SET_LAST DEFAULT_FLAGS)))
     else
       bindE (get_flags h3 curr_cl) (\<lambda>f.
       set_flags h3 curr_cl (f OR DEFAULT_FLAGS))))))))))))"

text \<open>The loop \<^verbatim>\<open>for (uint16_t i = 0; i < len; ++i)\<close>: the counter wraps around at
  \<open>2 ^ 16\<close>, so the loop does not end when \<open>len\<close> is larger than that.\<close>

partial_function (option) set_ring_loop ::
  "addr option list \<Rightarrow> nat \<Rightarrow> 32 word list \<Rightarrow> 32 word \<Rightarrow> 16 word \<Rightarrow> heap \<Rightarrow>
     (fault + heap) option" where
  "set_ring_loop arr off idx_map len i h =
     (if ucast i < len then
        (case set_ring_body arr off idx_map len i h of
           Inl e \<Rightarrow> Some (Inl e)
         | Inr h' \<Rightarrow> set_ring_loop arr off idx_map len (i + 1) h')
      else Some (Inr h))"

text \<open>\<^verbatim>\<open>build_randomized_list_for_cache_set\<close>: the heap afterwards and the number of calls
  of \<^verbatim>\<open>rand()\<close> so far.\<close>

definition build_randomized_list_for_cache_set ::
  "cache_ctx \<Rightarrow> rand_source \<Rightarrow> addr option list \<Rightarrow> nat \<Rightarrow> heap \<times> nat \<Rightarrow>
     (fault + heap \<times> nat) option" where
  "build_randomized_list_for_cache_set ctx rnd arr off st =
     (let len = associativity ctx in
      case gen_random_indices rnd (replicate (unat len) 0) len (snd st) of
        Inl e \<Rightarrow> Some (Inl e)
      | Inr (idx_map, k') \<Rightarrow>
          bindP (set_ring_loop arr off idx_map len 0 (fst st)) (\<lambda>h'. Some (Inr (h', k'))))"

text \<open>The second loop of \<^verbatim>\<open>build_cache_ds\<close>, over the sets.\<close>

fun foldP :: "('a \<Rightarrow> 's \<Rightarrow> (fault + 's) option) \<Rightarrow> 'a list \<Rightarrow> 's \<Rightarrow> (fault + 's) option" where
  "foldP f [] s = Some (Inr s)"
| "foldP f (x # xs) s = bindP (f x s) (foldP f xs)"

text \<open>The body of the third loop of \<^verbatim>\<open>build_cache_ds\<close>, which links the sets; the state is
  the heap and \<^verbatim>\<open>curr_cl\<close>.\<close>

definition relink_body ::
  "addr option list \<Rightarrow> 32 word list \<Rightarrow> 32 word \<Rightarrow> 32 word \<Rightarrow> 16 word \<Rightarrow> heap \<times> addr \<Rightarrow>
     fault + heap \<times> addr" where
  "relink_body arr idx_map nsets set_len i st =
     (let h = fst st; curr_cl = snd st in
      bindE (idx_at idx_map ((ucast i + 1) mod nsets)) (\<lambda>si.
      bindE (read_slot arr (unat (si * set_len))) (\<lambda>tgt.
      bindE (set_next h curr_cl tgt) (\<lambda>h1.
      bindE (get_next h1 curr_cl) (\<lambda>n1.
      bindE (get_prev h1 n1) (\<lambda>next_cl.
      bindE (get_next h1 curr_cl) (\<lambda>n2.
      bindE (set_prev h1 n2 curr_cl) (\<lambda>h2.
      Inr (h2, next_cl)))))))))"

partial_function (option) relink_loop ::
  "addr option list \<Rightarrow> 32 word list \<Rightarrow> 32 word \<Rightarrow> 32 word \<Rightarrow> 16 word \<Rightarrow> heap \<times> addr \<Rightarrow>
     (fault + heap \<times> addr) option" where
  "relink_loop arr idx_map nsets set_len i st =
     (if ucast i < nsets then
        (case relink_body arr idx_map nsets set_len i st of
           Inl e \<Rightarrow> Some (Inl e)
         | Inr st' \<Rightarrow> relink_loop arr idx_map nsets set_len (i + 1) st')
      else Some (Inr st))"

text \<open>
  \<^verbatim>\<open>build_cache_ds\<close>: from the heap, the pointer array of the allocator and the number of
  calls of \<^verbatim>\<open>rand()\<close> so far to the heap afterwards, the entry line and the new number of
  calls.
\<close>

definition build_cache_ds ::
  "cache_ctx \<Rightarrow> rand_source \<Rightarrow> heap \<Rightarrow> addr list \<Rightarrow> nat \<Rightarrow> (fault + heap \<times> addr \<times> nat) option" where
  "build_cache_ds ctx rnd h cl_ptrs k =
     (let n = unat (nr_of_cachelines ctx); set_len = associativity ctx in
      bindP (Some (foldE (bucket_step h set_len cl_ptrs) [0..<n]
                     (replicate n None, replicate (unat (sets ctx)) 0))) (\<lambda>(arr, idx_per_set).
      bindP (foldP (\<lambda>s. build_randomized_list_for_cache_set ctx rnd arr (unat (of_nat s * set_len)))
                   [0..<unat (sets ctx)] (h, k)) (\<lambda>(h1, k1).
      bindP (Some (gen_random_indices rnd (replicate (unat (sets ctx)) 0) (sets ctx) k1)) (\<lambda>(idx_map, k2).
      bindP (Some (idx_at idx_map 0)) (\<lambda>s0.
      bindP (Some (read_slot arr (unat (s0 * set_len)))) (\<lambda>first.
      bindP (Some (get_prev h1 first)) (\<lambda>curr_cl.
      bindP (relink_loop arr idx_map (sets ctx) set_len 0 (h1, curr_cl)) (\<lambda>(h2, c).
      bindP (Some (idx_at idx_map 0)) (\<lambda>s1.
      bindP (Some (read_slot arr (unat (s1 * set_len)))) (\<lambda>cache_ds.
      Some (Inr (h2, cache_ds, k2))))))))))))"

section \<open>Sanity check and \<^verbatim>\<open>prepare_cache_ds\<close> (cache.c)\<close>

text \<open>The \<^verbatim>\<open>do ... while\<close> loop of \<^verbatim>\<open>cache_ds_sanity_check\<close>, which counts the lines of each
  set in the array \<^verbatim>\<open>line_cnt_arr\<close>.\<close>

partial_function (option) sanity_count ::
  "heap \<Rightarrow> addr \<Rightarrow> addr \<Rightarrow> 32 word list \<Rightarrow> (fault + 32 word list) option" where
  "sanity_count h head curr_cl line_cnt_arr =
     (case get_next h curr_cl of
        Inl e \<Rightarrow> Some (Inl e)
      | Inr c \<Rightarrow>
          (case h c of
             None \<Rightarrow> Some (Inl Segfault)
           | Some l \<Rightarrow>
               if length line_cnt_arr \<le> unat (cache_set l) then Some (Inl OutOfBounds)
               else
                 (let cnt = line_cnt_arr[unat (cache_set l) := line_cnt_arr ! unat (cache_set l) + 1]
                  in if c \<noteq> head then sanity_count h head c cnt else Some (Inr cnt))))"

definition cache_ds_sanity_check :: "cache_ctx \<Rightarrow> heap \<Rightarrow> addr \<Rightarrow> (fault + int) option" where
  "cache_ds_sanity_check ctx h head =
     bindP (sanity_count h head head (replicate (unat (sets ctx)) 0)) (\<lambda>line_cnt_arr.
     Some (Inr (if \<exists>i<unat (sets ctx). line_cnt_arr ! i \<noteq> associativity ctx then 1 else 0)))"

text \<open>
  \<^verbatim>\<open>prepare_cache_ds\<close>, applied to the result of \<^verbatim>\<open>allocate_cache_ds\<close> (the heap \<open>h\<close> with
  the tagged lines and the pointer array \<^verbatim>\<open>cl_ptr_arr\<close>).
\<close>

definition prepare_cache_ds ::
  "cache_ctx \<Rightarrow> rand_source \<Rightarrow> heap \<Rightarrow> addr list \<Rightarrow> nat \<Rightarrow> (fault + heap \<times> addr \<times> nat) option" where
  "prepare_cache_ds ctx rnd h cl_ptrs k =
     bindP (build_cache_ds ctx rnd h cl_ptrs k) (\<lambda>(h', cache_ds, k').
     bindP (cache_ds_sanity_check ctx h' cache_ds) (\<lambda>r.
     if r \<noteq> 0 then Some (Inl AssertFail) else Some (Inr (h', cache_ds, k'))))"

section \<open>Concrete inputs used to exercise the theorems\<close>

text \<open>A ring of the two lines 1 and 2, and a zeroed line 3 outside it.\<close>

definition heap_pair :: heap where
  "heap_pair = Map.empty(1 \<mapsto> cl0\<lparr>next := 2, prev := 2\<rparr>,
                         2 \<mapsto> cl0\<lparr>next := 1, prev := 1\<rparr>,
                         3 \<mapsto> cl0)"

text \<open>A ring of the three lines 1, 2 and 3, in this order.\<close>

definition heap_tri :: heap where
  "heap_tri = Map.empty(1 \<mapsto> cl0\<lparr>next := 2, prev := 3\<rparr>,
                        2 \<mapsto> cl0\<lparr>next := 3, prev := 1\<rparr>,
                        3 \<mapsto> cl0\<lparr>next := 1, prev := 2\<rparr>)"

text \<open>An operating system with 4096-byte pages whose pagemap holds the entry \<open>e\<close> for
  every page and whose \<^verbatim>\<open>pread\<close> delivers all the bytes asked for.\<close>

definition os_entry :: "64 word \<Rightarrow> os" where
  "os_entry e = \<lparr>page_size = 4096, open_ok = True, pread = (\<lambda>n count offset. (int count, e))\<rparr>"


text \<open>A physically indexed cache of 128 sets with one line each.\<close>

definition ctx_small :: cache_ctx where
  "ctx_small = \<lparr>cache_level = L2, addressing = PHYSICAL, sets = 128, associativity = 1,
                 access_time = 12, nr_of_cachelines = 128, set_size = 64,
                 cache_size = 8192\<rparr>"


section \<open>Basic facts\<close>

lemma bindE_Inr [simp]: "bindE (Inr x) f = f x"
  by (simp add: bindE_def)

lemma bindE_Inl [simp]: "bindE (Inl e) f = Inl e"
  by (simp add: bindE_def)

lemma get_next_Some [simp]: "h p = Some c \<Longrightarrow> get_next h p = Inr (next c)"
  by (simp add: get_next_def)

lemma get_prev_Some [simp]: "h p = Some c \<Longrightarrow> get_prev h p = Inr (prev c)"
  by (simp add: get_prev_def)

lemma set_next_Some [simp]: "h p = Some c \<Longrightarrow> set_next h p v = Inr (h(p \<mapsto> c\<lparr>next := v\<rparr>))"
  by (simp add: set_next_def)

lemma set_prev_Some [simp]: "h p = Some c \<Longrightarrow> set_prev h p v = Inr (h(p \<mapsto> c\<lparr>prev := v\<rparr>))"
  by (simp add: set_prev_def)

lemma get_next_None [simp]: "h p = None \<Longrightarrow> get_next h p = Inl Segfault"
  by (simp add: get_next_def)

lemma get_prev_None [simp]: "h p = None \<Longrightarrow> get_prev h p = Inl Segfault"
  by (simp add: get_prev_def)

lemma set_next_None [simp]: "h p = None \<Longrightarrow> set_next h p v = Inl Segfault"
  by (simp add: set_next_def)

lemma set_prev_None [simp]: "h p = None \<Longrightarrow> set_prev h p v = Inl Segfault"
  by (simp add: set_prev_def)

section \<open>Cache context\<close>

lemmas conf_defs = L1_def L2_def L1_SETS_def L1_ASSOCIATIVITY_def L1_ACCESS_TIME_def
  L2_SETS_def L2_ASSOCIATIVITY_def L2_ACCESS_TIME_def L3_ACCESS_TIME_def
  L1_ADDRESSING_def L2_ADDRESSING_def
  CACHELINE_SIZE_def PAGE_SIZE_def CACHE_GROUP_SIZE_def

text \<open>
  C9, as stated, fails: for a cache level that is neither \<open>L1\<close> nor \<open>L2\<close> (here the
  integer 2) the constructor does not abort; it returns the null pointer.
\<close>

theorem get_cache_ctx_unknown_level_counterexample:
  "(2::int) \<noteq> L1 \<and> (2::int) \<noteq> L2 \<and> get_cache_ctx True 2 = Inr None \<and>
   get_cache_ctx True 2 \<noteq> Inl AssertFail"
  by (simp add: get_cache_ctx_def conf_defs)

text \<open>
  C9, amended: when the descriptor was allocated, \<open>get_cache_ctx\<close> returns the null
  pointer for every cache level other than \<open>L1\<close> and \<open>L2\<close> (no abort); for \<open>L1\<close> and
  \<open>L2\<close> it returns a context with the configured geometry of that level and the derived
  fields \<open>nr_of_cachelines = sets * associativity\<close>,
  \<open>set_size = CACHELINE_SIZE * associativity\<close> and \<open>cache_size = sets * set_size\<close>.
\<close>

theorem get_cache_ctx_levels:
  "(lvl \<noteq> L1 \<and> lvl \<noteq> L2 \<longrightarrow> get_cache_ctx True lvl = Inr None) \<and>
   (lvl = L1 \<or> lvl = L2 \<longrightarrow>
      (\<exists>ctx. get_cache_ctx True lvl = Inr (Some ctx) \<and>
         cache_level ctx = lvl \<and>
         addressing ctx = (if lvl = L1 then L1_ADDRESSING else L2_ADDRESSING) \<and>
         sets ctx = (if lvl = L1 then L1_SETS else L2_SETS) \<and>
         associativity ctx = (if lvl = L1 then L1_ASSOCIATIVITY else L2_ASSOCIATIVITY) \<and>
         access_time ctx = (if lvl = L1 then L1_ACCESS_TIME else L2_ACCESS_TIME) \<and>
         nr_of_cachelines ctx = sets ctx * associativity ctx \<and>
         set_size ctx = of_nat CACHELINE_SIZE * associativity ctx \<and>
         cache_size ctx = sets ctx * set_size ctx))"
  by (auto simp add: get_cache_ctx_def Let_def L1_def L2_def)

theorem get_cache_ctx_levels_witness:
  "get_cache_ctx True 5 = Inr None \<and>
   get_cache_ctx True L2 = Inr (Some \<lparr>cache_level = 1, addressing = PHYSICAL, sets = 512,
      associativity = 8, access_time = 12, nr_of_cachelines = 4096, set_size = 512,
      cache_size = 262144\<rparr>) \<and>
   get_cache_ctx True L1 = Inr (Some \<lparr>cache_level = 0, addressing = VIRTUAL, sets = 64,
      associativity = 8, access_time = 4, nr_of_cachelines = 512, set_size = 512,
      cache_size = 32768\<rparr>)"
  using get_cache_ctx_levels [of 5] get_cache_ctx_levels [of L2] get_cache_ctx_levels [of L1]
  by (auto simp add: conf_defs)

section \<open>Insertion and replacement\<close>

text \<open>
  C7: \<open>cl_insert\<close> with a null anchor turns the new line into a singleton ring
  (\<open>next\<close> and \<open>prev\<close> both point to the line itself). With a non-null anchor \<open>last_cl\<close>
  whose successor is live, and a new line that is not yet the anchor or its successor,
  afterwards \<open>last_cl.next = new_cl\<close>, \<open>new_cl.prev = last_cl\<close>, \<open>new_cl.next\<close> is the
  former \<open>last_cl.next\<close>, the \<open>prev\<close> of that former successor is \<open>new_cl\<close>, and no
  other line changes.
\<close>

theorem cl_insert_splice:
  "(h new_cl = Some c \<longrightarrow>
      cl_insert h 0 new_cl = Inr (h(new_cl \<mapsto> c\<lparr>next := new_cl, prev := new_cl\<rparr>))) \<and>
   (last_cl \<noteq> 0 \<and> h last_cl = Some a \<and> h new_cl = Some c \<and> h (next a) = Some n \<and>
    new_cl \<noteq> last_cl \<and> new_cl \<noteq> next a \<longrightarrow>
      (\<exists>h'. cl_insert h last_cl new_cl = Inr h' \<and>
         map_option next (h' last_cl) = Some new_cl \<and>
         map_option prev (h' new_cl) = Some last_cl \<and>
         map_option next (h' new_cl) = Some (next a) \<and>
         map_option prev (h' (next a)) = Some new_cl \<and>
         (\<forall>q. q \<noteq> last_cl \<and> q \<noteq> new_cl \<and> q \<noteq> next a \<longrightarrow> h' q = h q)))"
proof (cases "next a = last_cl")
  case True
  then show ?thesis by (auto simp add: cl_insert_def)
next
  case False
  then show ?thesis by (auto simp add: cl_insert_def)
qed

theorem cl_insert_splice_witness:
  "(\<exists>h'. cl_insert heap_pair 1 3 = Inr h' \<and>
         map_option next (h' 1) = Some 3 \<and>
         map_option prev (h' 3) = Some 1 \<and>
         map_option next (h' 3) = Some 2 \<and>
         map_option prev (h' 2) = Some 3) \<and>
   cl_insert heap_pair 0 3 = Inr (heap_pair(3 \<mapsto> cl0\<lparr>next := 3, prev := 3\<rparr>))"
  using cl_insert_splice [of heap_pair 3 cl0 1 "cl0\<lparr>next := 2, prev := 2\<rparr>"
      "cl0\<lparr>next := 1, prev := 1\<rparr>"]
  by (auto simp add: heap_pair_def cl0_def)

text \<open>
  C8: let \<open>old_cl\<close> be a line whose two neighbours are live lines other than \<open>old_cl\<close>
  itself, and \<open>new_cl\<close> a live line that is neither \<open>old_cl\<close> nor one of these
  neighbours. Then \<open>cl_replace new_cl old_cl\<close> makes the former neighbours point to
  \<open>new_cl\<close>, copies the links of \<open>old_cl\<close> into \<open>new_cl\<close>, and leaves \<open>old_cl\<close> (its
  own \<open>next\<close> and \<open>prev\<close> included) and every other line unchanged. When \<open>old_cl\<close> was
  linked in a ring (its neighbours pointed back to it), \<open>cl_replace old_cl new_cl\<close>
  immediately afterwards gives every line other than \<open>new_cl\<close> its original contents.
\<close>

theorem cl_replace_links:
  assumes "h old_cl = Some ol" and "h new_cl = Some c"
    and "h (next ol) = Some n" and "h (prev ol) = Some p"
    and "next ol \<noteq> old_cl" and "prev ol \<noteq> old_cl"
    and "new_cl \<noteq> old_cl" and "new_cl \<noteq> next ol" and "new_cl \<noteq> prev ol"
  shows "\<exists>h1. cl_replace h new_cl old_cl = Inr h1 \<and>
           map_option next (h1 (prev ol)) = Some new_cl \<and>
           map_option prev (h1 (next ol)) = Some new_cl \<and>
           map_option next (h1 new_cl) = Some (next ol) \<and>
           map_option prev (h1 new_cl) = Some (prev ol) \<and>
           h1 old_cl = Some ol \<and>
           (\<forall>q. q \<noteq> new_cl \<and> q \<noteq> next ol \<and> q \<noteq> prev ol \<longrightarrow> h1 q = h q) \<and>
           (prev n = old_cl \<and> next p = old_cl \<longrightarrow>
              (\<exists>h2. cl_replace h1 old_cl new_cl = Inr h2 \<and>
                    (\<forall>q. q \<noteq> new_cl \<longrightarrow> h2 q = h q)))"
proof (cases "next ol = prev ol")
  case True
  with assms show ?thesis by (auto simp add: cl_replace_def)
next
  case False
  with assms show ?thesis by (auto simp add: cl_replace_def)
qed

theorem cl_replace_links_witness:
  "\<exists>h1. cl_replace heap_pair 3 1 = Inr h1 \<and>
      map_option next (h1 2) = Some 3 \<and> map_option prev (h1 2) = Some 3 \<and>
      map_option next (h1 3) = Some 2 \<and> map_option prev (h1 3) = Some 2 \<and>
      h1 1 = Some (cl0\<lparr>next := 2, prev := 2\<rparr>) \<and>
      (\<exists>h2. cl_replace h1 1 3 = Inr h2 \<and> h2 1 = heap_pair 1 \<and> h2 2 = heap_pair 2)"
  using cl_replace_links [of heap_pair 1 "cl0\<lparr>next := 2, prev := 2\<rparr>" 3 cl0
      "cl0\<lparr>next := 1, prev := 1\<rparr>" "cl0\<lparr>next := 1, prev := 1\<rparr>"]
  by (auto simp add: heap_pair_def cl0_def)

section \<open>Release\<close>

text \<open>
  C10: \<open>release_cache_ds\<close> called with the null pointer returns at once: for every
  context and every allocator state, the state it returns is the state it was given, with
  no block freed and no cacheline changed.
\<close>

theorem release_cache_ds_null:
  "release_cache_ds malloc_ok ctx m 0 = Some (Inr m)"
  by (simp add: release_cache_ds_def)

section \<open>Traversal of a ring\<close>

lemma ring_nth:
  assumes "ring h xs" and "i < length xs"
  shows "\<exists>c. h (xs ! i) = Some c \<and> next c = xs ! (Suc i mod length xs) \<and>
             prev c = xs ! ((i + length xs - 1) mod length xs)"
  using assms by (auto simp add: ring_def split: option.splits)

lemma ring_get_next:
  assumes "ring h xs" and "i < length xs"
  shows "get_next h (xs ! i) = Inr (xs ! (Suc i mod length xs))"
  using ring_nth [OF assms] by auto

lemma ring_get_prev:
  assumes "ring h xs" and "i < length xs"
  shows "get_prev h (xs ! i) = Inr (xs ! ((i + length xs - 1) mod length xs))"
  using ring_nth [OF assms] by auto

lemma ring_nth_eq:
  assumes "ring h xs" and "i < length xs" and "j < length xs"
  shows "xs ! i = xs ! j \<longleftrightarrow> i = j"
  using assms by (auto simp add: ring_def nth_eq_iff_index_eq)

lemma ring_nth_neq_hd:
  assumes "ring h xs" and "0 < i" and "i < length xs"
  shows "xs ! i \<noteq> xs ! 0"
proof -
  have d: "distinct xs" using assms(1) by (simp add: ring_def)
  have l: "0 < length xs" using assms(3) by linarith
  show ?thesis using nth_eq_iff_index_eq [OF d assms(3) l] assms(2) by simp
qed

lemma prime_loop_ring:
  assumes "ring h xs" and "i < length xs"
  shows "prime_loop h (xs ! 0) (xs ! i) tr = Some (Inr (tr @ drop i xs))"
  using assms(2)
proof (induction "length xs - i" arbitrary: i tr)
  case 0
  then show ?case by simp
next
  case (Suc k)
  show ?case
  proof (cases "Suc i = length xs")
    case True
    then have "drop i xs = [xs ! i]"
      using Suc.prems by (metis Cons_nth_drop_Suc drop_all le_refl)
    then show ?thesis
      using True Suc.prems ring_get_next [OF assms(1) Suc.prems]
      by (subst prime_loop.simps) simp
  next
    case False
    then have lt: "Suc i < length xs" using Suc.prems by simp
    then have ne: "xs ! Suc i \<noteq> xs ! 0"
      using ring_nth_neq_hd [OF assms(1) _ lt] by simp
    have k: "k = length xs - Suc i" using Suc.hyps(2) by simp
    have "prime_loop h (xs ! 0) (xs ! Suc i) (tr @ [xs ! i]) =
            Some (Inr ((tr @ [xs ! i]) @ drop (Suc i) xs))"
      using Suc.hyps(1) [OF k lt] .
    then show ?thesis
      using ne lt ring_get_next [OF assms(1) Suc.prems] Cons_nth_drop_Suc [OF Suc.prems]
      by (subst prime_loop.simps) (simp add: mod_less)
  qed
qed

lemma prime_ring:
  assumes "ring h xs"
  shows "prime h (hd xs) = Some (Inr (xs, last xs))"
proof -
  have ne: "xs \<noteq> []" using assms by (simp add: ring_def)
  then have l: "0 < length xs" by simp
  have hd: "hd xs = xs ! 0" using ne by (simp add: hd_conv_nth)
  have "(0 + length xs - 1) mod length xs = length xs - 1" using l by simp
  then have "get_prev h (xs ! 0) = Inr (last xs)"
    using ring_get_prev [OF assms l] ne by (simp add: last_conv_nth)
  then show ?thesis
    using prime_loop_ring [OF assms l, of "[]"] by (simp add: prime_def hd)
qed

lemma prime_rev_loop_ring:
  assumes "ring h xs" and "i < length xs" and "0 < i"
  shows "prime_rev_loop h (xs ! 0) (xs ! i) tr = Some (Inr (tr @ rev (tl (take (Suc i) xs))))"
  using assms(2,3)
proof (induction i arbitrary: tr)
  case 0
  then show ?case by simp
next
  case (Suc i)
  have p: "get_prev h (xs ! Suc i) = Inr (xs ! i)"
    using ring_get_prev [OF assms(1) Suc.prems(1)] Suc.prems(1) by simp
  have tk: "tl (take (Suc (Suc i)) xs) = tl (take (Suc i) xs) @ [xs ! Suc i]"
    using Suc.prems(1) by (cases xs) (simp_all add: take_Suc_conv_app_nth)
  show ?case
  proof (cases "i = 0")
    case True
    then show ?thesis
      using p tk Suc.prems
      by (subst prime_rev_loop.simps) (cases xs; simp add: take_Suc_conv_app_nth)
  next
    case False
    then have i: "0 < i" "i < length xs" using Suc.prems by simp_all
    then have ne: "xs ! i \<noteq> xs ! 0"
      using ring_nth_neq_hd [OF assms(1) i] by simp
    show ?thesis
      using p tk ne Suc.IH [OF i(2,1)]
      by (subst prime_rev_loop.simps) simp
  qed
qed

lemma prime_rev_loop_ring_head:
  assumes "ring h xs"
  shows "prime_rev_loop h (hd xs) (hd xs) [] = Some (Inr (hd xs # rev (tl xs)))"
proof -
  have ne: "xs \<noteq> []" using assms by (simp add: ring_def)
  then have l: "0 < length xs" by simp
  have hd: "hd xs = xs ! 0" using ne by (simp add: hd_conv_nth)
  have m: "(0 + length xs - 1) mod length xs = length xs - 1" using l by simp
  have p: "get_prev h (xs ! 0) = Inr (xs ! (length xs - 1))"
    using ring_get_prev [OF assms l] m by simp
  show ?thesis
  proof (cases "length xs = 1")
    case True
    then have "tl xs = []" by (cases xs) simp_all
    then show ?thesis using p True
      by (subst prime_rev_loop.simps) (simp add: hd)
  next
    case False
    then have i: "length xs - 1 < length xs" "0 < length xs - 1" using l by (cases xs; simp)+
    then have nz: "xs ! (length xs - 1) \<noteq> xs ! 0"
      using ring_nth_neq_hd [OF assms i(2,1)] by simp
    have "Suc (length xs - 1) = length xs" using l by simp
    then show ?thesis
      using p nz prime_rev_loop_ring [OF assms i, of "[xs ! 0]"]
      by (subst prime_rev_loop.simps) (simp add: hd)
  qed
qed

lemma prime_rev_ring:
  assumes "ring h xs"
  shows "prime_rev h (hd xs) = Some (Inr (hd xs # rev (tl xs), last xs))"
proof -
  have ne: "xs \<noteq> []" using assms by (simp add: ring_def)
  then have l: "0 < length xs" by simp
  have hd: "hd xs = xs ! 0" using ne by (simp add: hd_conv_nth)
  have "(0 + length xs - 1) mod length xs = length xs - 1" using l by simp
  then have "get_prev h (hd xs) = Inr (last xs)"
    using ring_get_prev [OF assms l] ne by (simp add: last_conv_nth hd)
  then show ?thesis
    using prime_rev_loop_ring_head [OF assms] by (simp add: prime_rev_def)
qed


lemma ring_heap_tri: "ring heap_tri [1, 2, 3]"
  by (simp add: ring_def heap_tri_def cl0_def All_less_Suc)

text \<open>
  C1, as stated, fails for \<open>prime_rev\<close>: on the ring of the lines 1, 2, 3 entered at
  line 1 it returns line 3, which is \<open>entry.prev\<close>, while \<open>entry.next\<close> is line 2.
\<close>

theorem prime_rev_returns_next_counterexample:
  "ring heap_tri [1, 2, 3] \<and> get_next heap_tri 1 = Inr 2 \<and> get_prev heap_tri 1 = Inr 3 \<and>
   prime_rev heap_tri 1 = Some (Inr ([1, 3, 2], 3)) \<and>
   prime_rev heap_tri 1 \<noteq> Some (Inr ([1, 3, 2], 2))"
  using prime_rev_ring [OF ring_heap_tri] ring_heap_tri
  by (simp add: heap_tri_def)

text \<open>
  C1, amended: for every ring \<open>xs\<close> with entry line \<open>hd xs\<close>, \<open>prime\<close> terminates,
  loads from each line of the ring once, following \<open>next\<close> pointers from the entry
  until it is back at the entry, and returns \<open>entry.prev\<close> (the last line of the
  ring); \<open>prime_rev\<close> terminates, loads from each line once, following \<open>prev\<close>
  pointers from the entry until it is back at the entry, and returns \<open>entry.prev\<close>
  as well.
\<close>

theorem prime_and_prime_rev_ring:
  assumes "ring h xs"
  shows "prime h (hd xs) = Some (Inr (xs, last xs)) \<and>
         prime_rev h (hd xs) = Some (Inr (hd xs # rev (tl xs), last xs)) \<and>
         get_prev h (hd xs) = Inr (last xs)"
proof -
  have ne: "xs \<noteq> []" using assms by (simp add: ring_def)
  then have l: "0 < length xs" by simp
  have "(0 + length xs - 1) mod length xs = length xs - 1" using l by simp
  then have "get_prev h (hd xs) = Inr (last xs)"
    using ring_get_prev [OF assms l] ne by (simp add: last_conv_nth hd_conv_nth)
  then show ?thesis
    using prime_ring [OF assms] prime_rev_ring [OF assms] by simp
qed

theorem prime_and_prime_rev_ring_witness:
  "ring heap_tri [1, 2, 3] \<and>
   prime heap_tri 1 = Some (Inr ([1, 2, 3], 3)) \<and>
   prime_rev heap_tri 1 = Some (Inr ([1, 3, 2], 3)) \<and>
   get_prev heap_tri 1 = Inr 3"
  using prime_and_prime_rev_ring [OF ring_heap_tri] ring_heap_tri
  by simp

section \<open>Rotation and replacement in a ring\<close>













section \<open>Random permutations\<close>

lemma unat32_bound: "unat (w :: 32 word) < 4294967296"
  using unsigned_less [of w, where ?'a = nat] by simp

lemma swap_exchange:
  "i < length arr \<Longrightarrow> j < length arr \<Longrightarrow> swap arr i j = Inr (exchange arr (i, j))"
  by (simp add: swap_def exchange_def Let_def)

lemma length_exchange [simp]: "length (exchange xs ij) = length xs"
  by (simp add: exchange_def)

lemma mset_exchange:
  "fst ij < length xs \<Longrightarrow> snd ij < length xs \<Longrightarrow> mset (exchange xs ij) = mset xs"
  by (simp add: exchange_def mset_swap)

lemma shuffle_steps_Suc:
  "0 < n \<Longrightarrow> shuffle_steps rnd k (Suc n) = (n, unat (rnd k) mod n) # shuffle_steps rnd (Suc k) n"
proof -
  assume n: "0 < n"
  have "[0..<n] = 0 # map Suc [0..<n - 1]"
    using n by (metis Suc_pred' map_Suc_upt upt_conv_Cons)
  then show ?thesis
    by (simp add: shuffle_steps_def comp_def)
qed

lemma shuffle_steps_one [simp]: "shuffle_steps rnd k (Suc 0) = []"
  by (simp add: shuffle_steps_def)

lemma random_perm_loop_steps:
  "unat i < length arr \<Longrightarrow>
   random_perm_loop rnd arr i k =
     Inr (foldl exchange arr (shuffle_steps rnd k (Suc (unat i))), k + unat i)"
proof (induction "unat i" arbitrary: i arr k)
  case 0
  then have "i = 0" by (simp add: unat_eq_0)
  then show ?case by (subst random_perm_loop.simps) simp
next
  case (Suc n)
  then have pos: "0 < i" by (metis unat_gt_0 zero_less_Suc word_greater_zero_iff)
  have u1: "unat (i - 1) = n" using Suc.hyps(2) pos by (simp add: unat_minus_one word_greater_zero_iff)
  have m: "unat (rnd k mod i) = unat (rnd k) mod unat i" by (simp add: unat_mod)
  have lt: "unat (rnd k) mod unat i < unat i" using Suc.hyps(2) by simp
  have sw: "swap arr (unat i) (unat (rnd k mod i)) = Inr (exchange arr (unat i, unat (rnd k) mod unat i))"
    using Suc.prems lt m by (simp add: swap_exchange)
  have "n < length (exchange arr (unat i, unat (rnd k) mod unat i))"
    using Suc.prems Suc.hyps(2) by simp
  then have IH: "random_perm_loop rnd (exchange arr (unat i, unat (rnd k) mod unat i)) (i - 1) (Suc k)
    = Inr (foldl exchange (exchange arr (unat i, unat (rnd k) mod unat i))
            (shuffle_steps rnd (Suc k) (Suc n)), Suc k + n)"
    using Suc.hyps(1) [of "i - 1"] u1 by simp
  have st: "shuffle_steps rnd k (Suc (unat i)) =
      (unat i, unat (rnd k) mod unat i) # shuffle_steps rnd (Suc k) (unat i)"
    using Suc.hyps(2) by (simp add: shuffle_steps_Suc)
  show ?case
    using pos sw IH st Suc.hyps(2)
    by (subst random_perm_loop.simps) (simp add: Let_def)
qed

lemma shuffle_steps_bounds:
  "(i, j) \<in> set (shuffle_steps rnd k n) \<Longrightarrow> 0 < i \<and> i < n \<and> j < i"
  by (auto simp add: shuffle_steps_def)

lemma mset_foldl_exchange:
  "(\<forall>ij \<in> set steps. fst ij < length xs \<and> snd ij < length xs) \<Longrightarrow>
   mset (foldl exchange xs steps) = mset xs"
  by (induction steps arbitrary: xs) (simp_all add: mset_exchange)

lemma mset_shuffle_spec: "mset (shuffle_spec rnd k arr) = mset arr"
proof -
  have "\<forall>ij \<in> set (shuffle_steps rnd k (length arr)). fst ij < length arr \<and> snd ij < length arr"
    using shuffle_steps_bounds [of _ _ rnd k "length arr"] by fastforce
  then show ?thesis by (simp add: shuffle_spec_def mset_foldl_exchange)
qed

lemma random_perm_spec:
  assumes "0 < arr_len" and "unat arr_len = length arr"
  shows "random_perm rnd arr arr_len k = Inr (shuffle_spec rnd k arr, k + (length arr - 1))"
proof -
  have u: "unat (arr_len - 1) = length arr - 1"
    using assms by (simp add: unat_minus_one word_greater_zero_iff)
  have "0 < length arr" using assms by (metis unat_gt_0 word_greater_zero_iff)
  then have "unat (arr_len - 1) < length arr" "Suc (length arr - 1) = length arr" using u by simp_all
  then show ?thesis
    using random_perm_loop_steps [of "arr_len - 1" arr rnd k] u
    by (simp add: random_perm_def shuffle_spec_def)
qed

lemma fill_indices_upto:
  "unat arr_len \<le> length arr \<Longrightarrow> i \<le> arr_len \<Longrightarrow>
   fill_indices arr i arr_len =
     Inr (take (unat i) arr @ map of_nat [unat i..<unat arr_len] @ drop (unat arr_len) arr)"
proof (induction arr i arr_len rule: fill_indices.induct)
  case (1 arr i arr_len)
  show ?case
  proof (cases "i < arr_len")
    case False
    then have "i = arr_len" using "1.prems" by simp
    then show ?thesis by (subst fill_indices.simps) simp
  next
    case True
    then have lt: "unat i < unat arr_len" by (simp add: word_less_nat_alt)
    then have la: "unat i < length arr" using "1.prems" by simp
    have s: "unat (i + 1) = Suc (unat i)"
      using lt unat32_bound [of arr_len] by (simp add: unat_word_ariths)
    have le: "i + 1 \<le> arr_len" using True by (simp add: inc_le)
    have IH: "fill_indices (arr[unat i := i]) (i + 1) arr_len =
       Inr (take (Suc (unat i)) (arr[unat i := i]) @ map of_nat [Suc (unat i)..<unat arr_len] @
            drop (unat arr_len) (arr[unat i := i]))"
      using "1.IH" [OF True la] "1.prems" le s by simp
    have t: "take (Suc (unat i)) (arr[unat i := i]) = take (unat i) arr @ [i]"
      using la by (simp add: take_Suc_conv_app_nth)
    have d: "drop (unat arr_len) (arr[unat i := i]) = drop (unat arr_len) arr"
      using lt by simp
    have u: "[unat i..<unat arr_len] = unat i # [Suc (unat i)..<unat arr_len]"
      using lt by (simp add: upt_conv_Cons)
    show ?thesis
      using True la IH t d u by (subst fill_indices.simps) simp
  qed
qed

lemma gen_random_indices_spec:
  assumes "0 < arr_len" and "unat arr_len = length arr"
  shows "gen_random_indices rnd arr arr_len k =
           Inr (shuffle_spec rnd k (map of_nat [0..<length arr]), k + (length arr - 1))"
proof -
  have f: "fill_indices arr 0 arr_len = Inr (map of_nat [0..<length arr])"
    using fill_indices_upto [of arr_len arr 0] assms by simp
  have "random_perm rnd (map of_nat [0..<length arr]) arr_len k =
          Inr (shuffle_spec rnd k (map of_nat [0..<length arr]), k + (length arr - 1))"
    using random_perm_spec [of arr_len "map of_nat [0..<length arr]" rnd k] assms by simp
  then show ?thesis using f by (simp add: gen_random_indices_def)
qed

lemma shuffle_steps_order: "map fst (shuffle_steps rnd k n) = rev [1..<n]"
proof (induction n arbitrary: k)
  case 0
  then show ?case by (simp add: shuffle_steps_def)
next
  case (Suc n)
  show ?case
  proof (cases "n = 0")
    case True
    then show ?thesis by simp
  next
    case False
    then show ?thesis using Suc.IH [of "Suc k"] by (simp add: shuffle_steps_Suc)
  qed
qed

lemma map_unat_indices:
  assumes "n < 4294967296"
  shows "map unat (map of_nat [0..<n] :: 32 word list) = [0..<n]"
proof -
  have "map (unat \<circ> (of_nat :: nat \<Rightarrow> 32 word)) [0..<n] = [0..<n]"
    using assms by (intro map_idI) (auto simp add: unat_of_nat)
  then show ?thesis by simp
qed

lemma random_perm_empty: "random_perm rnd [] 0 k = Inl OutOfBounds"
proof -
  have m: "(- 1 :: 32 word) = 4294967295" by simp
  show ?thesis
    unfolding random_perm_def
    by (subst random_perm_loop.simps) (simp add: m swap_def Let_def)
qed

text \<open>
  C6: for an array of \<open>arr_len \<ge> 1\<close> elements, \<open>random_perm\<close> returns the array
  obtained by swapping, for each \<open>i\<close> from \<open>arr_len - 1\<close> down to 1 in this order,
  the positions \<open>i\<close> and \<open>rand() mod i\<close>; every swap index is smaller than its
  \<open>i\<close>; the result has the same multiset of elements as the input; and
  \<open>gen_random_indices\<close> returns a permutation of \<open>0, 1, \<dots>, arr_len - 1\<close>. Both
  functions call \<open>rand()\<close> exactly \<open>arr_len - 1\<close> times.
\<close>

theorem random_perm_rearranges:
  assumes "0 < arr_len" and "unat arr_len = length arr"
  shows "random_perm rnd arr arr_len k = Inr (shuffle_spec rnd k arr, k + (length arr - 1)) \<and>
         map fst (shuffle_steps rnd k (length arr)) = rev [1..<length arr] \<and>
         (\<forall>ij \<in> set (shuffle_steps rnd k (length arr)). snd ij < fst ij) \<and>
         mset (shuffle_spec rnd k arr) = mset arr \<and>
         gen_random_indices rnd arr arr_len k =
           Inr (shuffle_spec rnd k (map of_nat [0..<length arr]), k + (length arr - 1)) \<and>
         mset (map unat (shuffle_spec rnd k (map of_nat [0..<length arr]))) =
           mset [0..<length arr]"
proof -
  have b: "length arr < 4294967296" using unat32_bound [of arr_len] assms(2) by simp
  have "mset (shuffle_spec rnd k (map of_nat [0..<length arr])) =
        mset (map of_nat [0..<length arr] :: 32 word list)"
    by (rule mset_shuffle_spec)
  then have "mset (map unat (shuffle_spec rnd k (map of_nat [0..<length arr]))) =
        mset (map unat (map of_nat [0..<length arr] :: 32 word list))"
    by (metis mset_map)
  then have p: "mset (map unat (shuffle_spec rnd k (map of_nat [0..<length arr]))) =
        mset [0..<length arr]"
    by (simp only: map_unat_indices [OF b])
  have s: "\<forall>ij \<in> set (shuffle_steps rnd k (length arr)). snd ij < fst ij"
    using shuffle_steps_bounds [of _ _ rnd k "length arr"] by fastforce
  show ?thesis
    using random_perm_spec [OF assms] gen_random_indices_spec [OF assms] p s
      shuffle_steps_order [of rnd k "length arr"] mset_shuffle_spec [of rnd k arr]
    by simp
qed

lemma shuffle_example:
  "shuffle_spec (\<lambda>k. 5) 0 [10, 20, 30] = [30, 10, 20]"
  "shuffle_spec (\<lambda>k. 5) 0 [0, 1, 2] = [2, 0, 1]"
  by code_simp+

theorem random_perm_rearranges_witness:
  "random_perm (\<lambda>k. 5) [10, 20, 30] 3 0 = Inr ([30, 10, 20], 2) \<and>
   mset [30, 10, 20 :: 32 word] = mset [10, 20, 30] \<and>
   gen_random_indices (\<lambda>k. 5) [10, 20, 30] 3 0 = Inr ([2, 0, 1], 2)"
  using random_perm_rearranges [of 3 "[10, 20, 30]" "\<lambda>k. 5" 0] shuffle_example
  by (simp add: upt_rec)

section \<open>Address translation\<close>

lemma pagemap_read_fail:
  "fst (pread os 0 8 (vpn * 8)) \<le> 0 \<Longrightarrow> pagemap_read os vpn 0 0 d = None"
  by (subst pagemap_read.simps) (simp add: case_prod_beta)

lemma pagemap_read_full:
  "pread os 0 8 (vpn * 8) = (8, e) \<Longrightarrow> pagemap_read os vpn 0 0 d = Some e"
  by (subst pagemap_read.simps, subst pagemap_read.simps) (simp add: store_bytes_def)

lemma pagemap_get_entry_fail:
  assumes "page_size os \<noteq> 0" and "fst (pread os 0 8 (vaddr div page_size os * 8)) \<le> 0"
  shows "pagemap_get_entry os d vaddr = Inr None"
  using assms by (simp add: pagemap_get_entry_def Let_def pagemap_read_fail)

lemma pagemap_get_entry_full:
  assumes "page_size os \<noteq> 0" and "pread os 0 8 (vaddr div page_size os * 8) = (8, e)"
  shows "\<exists>entry. pagemap_get_entry os d vaddr = Inr (Some entry) \<and>
           pfn entry = e AND mask 54 \<and> present entry = bit e 63"
proof -
  have m: "(push_bit 54 1 - 1 :: 64 word) = mask 54"
    by (simp add: mask_eq_exp_minus_1)
  have b: "(drop_bit 63 e AND 1 = 1) = bit e 63"
    by (simp add: bit_iff_odd_drop_bit and_one_eq mod_2_eq_odd) 
  show ?thesis
    using assms by (simp add: pagemap_get_entry_def Let_def pagemap_read_full b flip: m)
qed

text \<open>
  C5, amended: \<open>get_phys_addr\<close> reads the pagemap entry at byte offset
  \<open>8 * (vaddr div page_size)\<close>. It returns 1 and leaves \<open>paddr\<close> as it was when the
  pagemap file cannot be opened, when the read returns no bytes or an error, or when the
  low 54 bits of the entry (the frame number) are zero. Otherwise, the eight bytes having
  been delivered by the read, it returns 0 and sets \<open>paddr\<close> to
  \<open>pfn * page_size + vaddr mod page_size\<close>. The present bit (bit 63) of the entry has
  no influence on the outcome.
\<close>

theorem get_phys_addr_cases:
  assumes "page_size os \<noteq> 0"
  shows "(\<not> open_ok os \<longrightarrow> get_phys_addr os d paddr vaddr = Inr (1, paddr)) \<and>
         (open_ok os \<and> fst (pread os 0 8 (vaddr div page_size os * 8)) \<le> 0 \<longrightarrow>
            get_phys_addr os d paddr vaddr = Inr (1, paddr)) \<and>
         (open_ok os \<and> pread os 0 8 (vaddr div page_size os * 8) = (8, e) \<longrightarrow>
            get_phys_addr os d paddr vaddr =
              (if e AND mask 54 = 0 then Inr (1, paddr)
               else Inr (0, (e AND mask 54) * page_size os + vaddr mod page_size os)))"
proof (intro conjI impI)
  assume "\<not> open_ok os"
  then show "get_phys_addr os d paddr vaddr = Inr (1, paddr)"
    by (simp add: get_phys_addr_def)
next
  assume "open_ok os \<and> fst (pread os 0 8 (vaddr div page_size os * 8)) \<le> 0"
  then show "get_phys_addr os d paddr vaddr = Inr (1, paddr)"
    using pagemap_get_entry_fail [OF assms, of vaddr d] by (simp add: get_phys_addr_def)
next
  assume a: "open_ok os \<and> pread os 0 8 (vaddr div page_size os * 8) = (8, e)"
  then obtain entry where "pagemap_get_entry os d vaddr = Inr (Some entry)"
    and "pfn entry = e AND mask 54"
    using pagemap_get_entry_full [OF assms, of vaddr e d] by blast
  then show "get_phys_addr os d paddr vaddr =
              (if e AND mask 54 = 0 then Inr (1, paddr)
               else Inr (0, (e AND mask 54) * page_size os + vaddr mod page_size os))"
    using a by (simp add: get_phys_addr_def)
qed

lemma os_entry_simps:
  "page_size (os_entry e) = 4096" "open_ok (os_entry e)"
  "pread (os_entry e) n 8 off = (8, e)"
  by (simp_all add: os_entry_def)

lemma addr_1234: "(0x1234 :: 64 word) div 4096 = 1" "(0x1234 :: 64 word) mod 4096 = 0x234"
  by simp_all

text \<open>
  C5, as stated, fails: the present bit is parsed into the entry but never checked. The
  entry 5 has frame number 5 and a clear present bit, and the translation succeeds.
\<close>

theorem get_phys_addr_present_counterexample:
  "\<not> bit (5 :: 64 word) 63 \<and>
   get_phys_addr (os_entry 5) 0 0 0x1234 = Inr (0, 0x5234)"
proof -
  obtain entry where e: "pagemap_get_entry (os_entry 5) 0 0x1234 = Inr (Some entry)"
    and p: "pfn entry = 5 AND mask 54"
    using pagemap_get_entry_full [of "os_entry 5" "0x1234" 5 0]
    by (auto simp add: os_entry_simps)
  have "(5 :: 64 word) AND mask 54 = 5" "\<not> bit (5 :: 64 word) 63"
    by (simp_all add: mask_eq_exp_minus_1 bit_iff_odd_drop_bit drop_bit_eq_div)
  then show ?thesis
    using e p by (simp add: get_phys_addr_def os_entry_simps addr_1234)
qed

theorem get_phys_addr_cases_witness:
  "get_phys_addr (os_entry 5) 0 0 0x1234 = Inr (0, 0x5234) \<and>
   get_phys_addr (os_entry (push_bit 63 1)) 0 77 0x1234 = Inr (1, 77)"
  using get_phys_addr_cases [of "os_entry 5" 0 0 "0x1234" 5]
    get_phys_addr_cases [of "os_entry (push_bit 63 1)" 0 77 "0x1234" "push_bit 63 1"]
  by (simp add: os_entry_simps addr_1234 mask_eq_exp_minus_1)

section \<open>Collision detection\<close>










lemma bindP_simps [simp]:
  "bindP None f = None" "bindP (Some (Inl e)) f = Some (Inl e)" "bindP (Some (Inr x)) f = f x"
  by (simp_all add: bindP_def)





















section \<open>The cache set of the lines of a page\<close>

lemma set_mask_pow: "SET_MASK (2 ^ k) = mask (k + 6) XOR mask 6"
proof -
  have "(2 ^ k * 64 :: 64 word) = 2 ^ (k + 6)" by (simp add: power_add)
  then have "(2 ^ k * 64 - 1 :: 64 word) = mask (k + 6)" by (simp add: mask_eq_exp_minus_1)
  moreover have "(64 - 1 :: 64 word) = mask 6" by (simp add: mask_eq_exp_minus_1)
  ultimately show ?thesis by (simp add: SET_MASK_def CACHELINE_SIZE_def)
qed

lemma and_set_mask_div:
  "(x AND (mask (k + 6) XOR mask 6)) div 64 = take_bit k (drop_bit 6 x)" for x :: "64 word"
proof -
  have "(x AND (mask (k + 6) XOR mask 6)) div 64 = drop_bit 6 (x AND (mask (k + 6) XOR mask 6))"
    by (simp add: drop_bit_eq_div)
  also have "\<dots> = take_bit k (drop_bit 6 x)"
    by (rule bit_eqI) (auto simp add: bit_simps dest: bit_imp_le_length)
  finally show ?thesis .
qed

lemma unat_take_drop:
  "unat (take_bit k (drop_bit 6 x) :: 64 word) = (unat x div 64) mod 2 ^ k"
proof -
  have "unat (take_bit k (drop_bit 6 x) :: 64 word) = take_bit k (drop_bit 6 (unat x))"
    by (simp only: unsigned_take_bit_eq unat_drop_bit_eq)
  then show ?thesis by (simp add: take_bit_eq_mod drop_bit_eq_div)
qed

lemma unat_of_nat64: "n < 18446744073709551616 \<Longrightarrow> unat (of_nat n :: 64 word) = n"
  by (simp add: unat_of_nat)
lemma aligned_room:
  assumes "(a::nat) mod 4096 = 0" and "a < 18446744073709551616"
  shows "a + 4096 \<le> 18446744073709551616"
proof -
  obtain q where q: "a = 4096 * q" using assms(1) by (auto simp add: mod_eq_0_iff_dvd)
  then have "q < 4503599627370496" using assms(2) by linarith
  then show ?thesis using q by linarith
qed
lemma unat_add_line:
  assumes a: "unat (p :: 64 word) mod 4096 = 0" and i: "i < 64"
  shows "unat (p + of_nat (i * 64)) = unat p + i * 64"
proof -
  have b: "unat p < 18446744073709551616" using unsigned_less [of p, where ?'a = nat] by simp
  have "unat p + 4096 \<le> 18446744073709551616" using a b by (rule aligned_room)
  then have c: "unat p + i * 64 < 18446744073709551616" using i by linarith
  have "i * 64 < 18446744073709551616" using i by linarith
  then have d: "unat (of_nat (i * 64) :: 64 word) = i * 64" by (rule unat_of_nat64)
  have "unat (p + of_nat (i * 64)) = (unat p + unat (of_nat (i * 64) :: 64 word)) mod 2 ^ 64"
    by (simp only: unat_word_ariths len_bit0 len_num1 mult_1 One_nat_def) simp
  then show ?thesis using c d by (simp only:) simp
qed
lemma ucast_pow_32_64: "k \<le> 16 \<Longrightarrow> (ucast (2 ^ k :: 32 word) :: 64 word) = 2 ^ k"
  by (rule bit_eqI) (auto simp add: bit_simps)

lemma get_cache_set_helper_pow:
  assumes "k \<le> 16"
  shows "unat (get_cache_set_helper (2 ^ k) x) = (unat x div 64) mod 2 ^ k"
proof -
  have "get_cache_set_helper (2 ^ k) x = ucast (take_bit k (drop_bit 6 x))"
    by (simp add: get_cache_set_helper_def ucast_pow_32_64 [OF assms] set_mask_pow
        and_set_mask_div CACHELINE_SIZE_def)
  moreover have "unat (ucast (take_bit k (drop_bit 6 x)) :: 16 word) = unat (take_bit k (drop_bit 6 x))"
    using assms by (simp add: unsigned_ucast_eq unsigned_take_bit_eq min_def)
  ultimately show ?thesis by (simp only: unat_take_drop)
qed

lemma pow_split: "6 \<le> k \<Longrightarrow> (2::nat) ^ k = 64 * 2 ^ (k - 6)"
proof -
  assume "6 \<le> k"
  then have "k = 6 + (k - 6)" by simp
  then have "(2::nat) ^ k = 2 ^ 6 * 2 ^ (k - 6)" by (metis power_add)
  then show ?thesis by simp
qed

lemma mod_group:
  fixes q i :: nat
  assumes "6 \<le> k" and "i < 64"
  shows "(64 * q + i) mod 2 ^ k = 64 * (q mod 2 ^ (k - 6)) + i"
  using assms(2) by (simp add: pow_split [OF assms(1)] mod_mult2_eq)

lemma page_aligned_unat: "page_aligned p \<Longrightarrow> unat p mod 4096 = 0"
proof -
  assume "page_aligned p"
  then have "p mod 4096 = 0" by (simp add: page_aligned_def PAGE_SIZE_def)
  then have "unat (p mod 4096) = 0" by simp
  then show ?thesis by (simp add: unat_mod)
qed

lemma line_at_unat:
  assumes "page_aligned p" and "i < 64"
  shows "unat (line_at p i) = unat p + i * 64"
  unfolding line_at_def CACHELINE_SIZE_def
  by (rule unat_add_line [OF page_aligned_unat [OF assms(1)] assms(2)])

lemma line_at_div_mod:
  assumes "page_aligned p" and "i < 64"
  shows "line_at p i div 4096 = p div 4096" and "line_at p i mod 4096 = of_nat (i * 64)"
proof -
  have a: "unat p mod 4096 = 0" by (rule page_aligned_unat [OF assms(1)])
  have u: "unat (line_at p i) = unat p + i * 64" by (rule line_at_unat [OF assms])
  obtain q where q: "unat p = 4096 * q" using a by (auto simp add: mod_eq_0_iff_dvd)
  have r: "i * 64 < 4096" using assms(2) by linarith
  have "(unat p + i * 64) div 4096 = unat p div 4096" using r by (simp add: q)
  then have "unat (line_at p i div 4096) = unat (p div 4096)"
    by (simp add: unat_div u)
  then show "line_at p i div 4096 = p div 4096" by (simp only: word_unat_eq_iff)
  have "(unat p + i * 64) mod 4096 = i * 64" using r by (simp add: q)
  moreover have "unat (of_nat (i * 64) :: 64 word) = i * 64"
    using assms(2) by (intro unat_of_nat64) linarith
  ultimately have "unat (line_at p i mod 4096) = unat (of_nat (i * 64) :: 64 word)"
    by (simp add: unat_mod u)
  then show "line_at p i mod 4096 = of_nat (i * 64)" by (simp only: word_unat_eq_iff)
qed

lemma line_at_0 [simp]: "line_at p 0 = p"
  by (simp add: line_at_def)

lemma get_phys_addr_line:
  assumes ps: "page_size os = 4096" and al: "page_aligned p" and i: "i < 64"
    and t: "get_phys_addr os d 0 p = Inr (0, pa)"
  shows "get_phys_addr os d 0 (line_at p i) = Inr (0, pa + of_nat (i * 64))"
proof -
  have e: "pagemap_get_entry os d (line_at p i) = pagemap_get_entry os d p"
    by (simp add: pagemap_get_entry_def ps line_at_div_mod(1) [OF al i])
  have m: "p mod 4096 = 0" using al by (simp add: page_aligned_def PAGE_SIZE_def)
  show ?thesis
    using t
    by (auto simp add: get_phys_addr_def e ps m line_at_div_mod(2) [OF al i]
        split: if_splits sum.splits option.splits)
qed

lemma get_phys_cache_set_Inr:
  assumes "get_phys_cache_set ctx os d p = Inr s"
  shows "\<exists>pa. get_phys_addr os d 0 p = Inr (0, pa) \<and> pa \<noteq> 0 \<and>
              s = get_cache_set_helper (sets ctx) pa"
  using assms by (auto simp add: get_phys_cache_set_def split: sum.splits if_splits)

lemma get_phys_addr_aligned:
  assumes ps: "page_size os = 4096" and al: "page_aligned p"
    and t: "get_phys_addr os d 0 p = Inr (0, pa)"
  shows "unat pa mod 4096 = 0"
proof -
  have m: "p mod 4096 = 0" using al by (simp add: page_aligned_def PAGE_SIZE_def)
  obtain x where "pa = x * 4096"
    using t by (auto simp add: get_phys_addr_def ps m split: if_splits sum.splits option.splits)
  then have "unat pa = (unat x * 4096) mod 18446744073709551616"
    by (simp add: unat_word_ariths)
  moreover have "(18446744073709551616 :: nat) = 4096 * 4503599627370496" by simp
  ultimately have "unat pa = 4096 * (unat x mod 4503599627370496)"
    by (simp only: mult.commute [of _ 4096] mult_mod_right)
  then show ?thesis by simp
qed

lemma page_slots:
  assumes g: "geometry ctx k" and ps: "page_size os = 4096" and al: "page_aligned p"
    and t: "get_phys_cache_set ctx os d p = Inr s0"
  shows "\<exists>grp<2 ^ (k - 6). \<forall>i<64.
            get_phys_cache_set ctx os d (line_at p i) = Inr (of_nat (64 * grp + i))"
proof -
  have k: "sets ctx = 2 ^ k" "6 \<le> k" "k \<le> 16" using g by (simp_all add: geometry_def)
  obtain pa where pa: "get_phys_addr os d 0 p = Inr (0, pa)" "pa \<noteq> 0"
    using get_phys_cache_set_Inr [OF t] by blast
  have a: "unat pa mod 4096 = 0" by (rule get_phys_addr_aligned [OF ps al pa(1)])
  obtain q where q: "unat pa = 4096 * q" using a by (auto simp add: mod_eq_0_iff_dvd)
  have pos: "0 < unat pa" using pa(2) by (simp add: unat_gt_0)
  define grp where "grp = q mod 2 ^ (k - 6)"
  have "grp < 2 ^ (k - 6)" by (simp add: grp_def)
  moreover have "\<forall>i<64. get_phys_cache_set ctx os d (line_at p i) = Inr (of_nat (64 * grp + i))"
  proof (intro allI impI)
    fix i :: nat assume i: "i < 64"
    have ad: "get_phys_addr os d 0 (line_at p i) = Inr (0, pa + of_nat (i * 64))"
      by (rule get_phys_addr_line [OF ps al i pa(1)])
    have u: "unat (pa + of_nat (i * 64)) = unat pa + i * 64"
      by (rule unat_add_line [OF a i])
    then have nz: "pa + of_nat (i * 64) \<noteq> 0" using pos by (metis add_gr_0 unat_gt_0)
    have "(unat pa + i * 64) div 64 = 64 * q + i" by (simp add: q)
    then have "unat (get_cache_set_helper (2 ^ k) (pa + of_nat (i * 64))) = 64 * grp + i"
      using mod_group [OF k(2) i, of q]
      by (simp only: get_cache_set_helper_pow [OF k(3)] u grp_def)
    then have "of_nat (unat (get_cache_set_helper (2 ^ k) (pa + of_nat (i * 64)))) =
        (of_nat (64 * grp + i) :: 16 word)" by (simp only:)
    then have "get_cache_set_helper (2 ^ k) (pa + of_nat (i * 64)) = of_nat (64 * grp + i)"
      by (simp only: of_nat_unat ucast_id)
    then show "get_phys_cache_set ctx os d (line_at p i) = Inr (of_nat (64 * grp + i))"
      using ad nz by (simp add: get_phys_cache_set_def k(1))
  qed
  ultimately show ?thesis by blast
qed

lemma foldE_append: "foldE f (xs @ ys) s = bindE (foldE f xs s) (foldE f ys)"
  by (induction xs arbitrary: s) (auto simp add: bindE_def split: sum.splits)

lemma unat_of_nat32: "n < 4294967296 \<Longrightarrow> unat (of_nat n :: 32 word) = n"
  by (simp add: unat_of_nat)

lemma unat_of_nat16: "n < 65536 \<Longrightarrow> unat (of_nat n :: 16 word) = n"
  by (simp add: unat_of_nat)

lemma geometry_unat_sets:
  assumes "geometry ctx k"
  shows "unat (sets ctx) = 2 ^ k"
proof -
  have k: "sets ctx = 2 ^ k" "k \<le> 16" using assms by (simp_all add: geometry_def)
  have "(2::nat) ^ k < 2 ^ 32" using k(2) by (intro power_strict_increasing) simp_all
  then have "unat (of_nat (2 ^ k) :: 32 word) = 2 ^ k" by (intro unat_of_nat32) simp
  moreover have "(of_nat (2 ^ k) :: 32 word) = 2 ^ k" by simp
  ultimately show ?thesis using k(1) by (simp only:)
qed

lemma geometry_dvd_lines:
  assumes "geometry ctx k"
  shows "64 dvd unat (nr_of_cachelines ctx)"
proof -
  have k: "6 \<le> k" and n: "nr_of_cachelines ctx = sets ctx * associativity ctx"
    using assms by (simp_all add: geometry_def)
  have "unat (nr_of_cachelines ctx) = (2 ^ k * unat (associativity ctx)) mod 4294967296"
    by (simp add: n unat_word_ariths geometry_unat_sets [OF assms])
  moreover have "(2::nat) ^ k = 64 * 2 ^ (k - 6)" by (rule pow_split [OF k])
  moreover have "(4294967296 :: nat) = 64 * 67108864" by simp
  ultimately have "unat (nr_of_cachelines ctx) =
      64 * ((2 ^ (k - 6) * unat (associativity ctx)) mod 67108864)"
    by (simp only: mult.assoc mult_mod_right)
  then show ?thesis by simp
qed

lemma dvd_room:
  fixes a b :: nat
  assumes "64 dvd a" and "64 dvd b" and "a < b"
  shows "a + 64 \<le> b"
proof -
  obtain x y where xy: "a = 64 * x" "b = 64 * y" using assms(1,2) by (auto simp add: dvd_def)
  then have "x < y" using assms(3) by simp
  then have "x + 1 \<le> y" by simp
  then have "64 * (x + 1) \<le> 64 * y" by (rule mult_le_mono2)
  then show ?thesis using xy by simp
qed

lemma idx_room:
  assumes "geometry ctx k" and "priv_inv ctx st" and "cl_ptr_idx st < nr_of_cachelines ctx"
  shows "unat (cl_ptr_idx st) + 64 \<le> length (cl_ptr_arr st)"
proof -
  have "unat (cl_ptr_idx st) < unat (nr_of_cachelines ctx)"
    using assms(3) by (simp add: word_less_nat_alt)
  then have "unat (cl_ptr_idx st) + 64 \<le> unat (nr_of_cachelines ctx)"
    using assms(2) geometry_dvd_lines [OF assms(1)] by (intro dvd_room) (simp_all add: priv_inv_def)
  then show ?thesis using assms(2) by (simp add: priv_inv_def)
qed

lemma unat_idx_add:
  fixes idx :: "32 word"
  assumes "unat idx + j < 4294967296"
  shows "unat (idx + of_nat j) = unat idx + j"
proof -
  have "j < 4294967296" using assms by linarith
  then have "unat (of_nat j :: 32 word) = j" by (rule unat_of_nat32)
  then show ?thesis using assms by (simp add: unat_word_ariths)
qed

lemma line_at_inj:
  assumes "page_aligned p" and "i < 64" and "j < 64"
  shows "line_at p i = line_at p j \<longleftrightarrow> i = j"
proof
  assume "line_at p i = line_at p j"
  then have "unat (line_at p i) = unat (line_at p j)" by simp
  then show "i = j" using line_at_unat [OF assms(1,2)] line_at_unat [OF assms(1,3)] by simp
qed simp

lemma unat_set_index:
  assumes "k \<le> 16" and "6 \<le> k" and "grp < 2 ^ (k - 6)" and "i < 64"
  shows "unat (of_nat (64 * grp + i) :: 16 word) = 64 * grp + i" and "64 * grp + i < 2 ^ k"
proof -
  have "64 * grp + i < 64 * 2 ^ (k - 6)" using assms(3,4) by linarith
  then show lt: "64 * grp + i < 2 ^ k" by (simp only: pow_split [OF assms(2)])
  have "(2::nat) ^ k \<le> 2 ^ 16" using assms(1) by (intro power_increasing) simp_all
  then have "64 * grp + i < 65536" using lt by simp
  then show "unat (of_nat (64 * grp + i) :: 16 word) = 64 * grp + i"
    by (rule unat_of_nat16)
qed

lemma accepted_upto_0:
  assumes "\<forall>i<64. memory st0 (line_at p i) = Some cl0"
  shows "accepted_upto p grp st0 0 st0"
  using assms by (auto simp add: accepted_upto_def)

lemma accept_line_step:
  assumes k: "6 \<le> k" "k \<le> 16" and grp: "grp < 2 ^ (k - 6)"
    and slot: "get_phys_cache_set ctx os d (line_at p j) = Inr (of_nat (64 * grp + j))"
    and al: "page_aligned p"
    and len: "length (cnt_lines_per_set st0) = 2 ^ k"
    and room: "unat (cl_ptr_idx st0) + 64 \<le> length (cl_ptr_arr st0)"
    and small: "length (cl_ptr_arr st0) < 4294967296"
    and j: "j < 64"
    and acc: "accepted_upto p grp st0 j st"
  shows "\<exists>st'. priv_accept_line ctx os d p j st = Inr st' \<and> accepted_upto p grp st0 (Suc j) st'"
proof -
  let ?s = "of_nat (64 * grp + j) :: 16 word"
  let ?i0 = "unat (cl_ptr_idx st0)"
  have us: "unat ?s = 64 * grp + j" "64 * grp + j < 2 ^ k"
    using unat_set_index [OF k(2,1) grp j] by simp_all
  have idx: "cl_ptr_idx st = cl_ptr_idx st0 + of_nat j" using acc by (simp add: accepted_upto_def)
  have ui: "unat (cl_ptr_idx st) = ?i0 + j"
    unfolding idx using room small j by (intro unat_idx_add) linarith
  have la: "length (cl_ptr_arr st) = length (cl_ptr_arr st0)"
    and lc: "length (cnt_lines_per_set st) = length (cnt_lines_per_set st0)"
    using acc by (simp_all add: accepted_upto_def)
  have mj: "memory st (line_at p j) = Some cl0"
    using acc j by (simp add: accepted_upto_def)
  have cj: "cnt_lines_per_set st ! (64 * grp + j) = cnt_lines_per_set st0 ! (64 * grp + j)"
    using acc us(2) len by (simp add: accepted_upto_def)
  define st' where "st' = st\<lparr>memory := (memory st)(line_at p j \<mapsto> cl0\<lparr>cache_set := ?s\<rparr>),
                       cl_ptr_arr := (cl_ptr_arr st)[?i0 + j := line_at p j],
                       cl_ptr_idx := cl_ptr_idx st + 1,
                       cnt_lines_per_set :=
                         (cnt_lines_per_set st)[64 * grp + j := cnt_lines_per_set st ! (64 * grp + j) + 1]\<rparr>"
  have run: "priv_accept_line ctx os d p j st = Inr st'"
    using slot mj ui us la lc len room j
    by (simp add: priv_accept_line_def Let_def st'_def)
  have a1: "cl_ptr_idx st' = cl_ptr_idx st0 + of_nat (Suc j)"
    by (simp add: st'_def idx)
  have a2: "cls_to_del st' = cls_to_del st0" using acc by (simp add: st'_def accepted_upto_def)
  have a3: "length (cl_ptr_arr st') = length (cl_ptr_arr st0)" by (simp add: st'_def la)
  have a4: "\<forall>t<length (cl_ptr_arr st0).
        cl_ptr_arr st' ! t =
          (if ?i0 \<le> t \<and> t < ?i0 + Suc j then line_at p (t - ?i0) else cl_ptr_arr st0 ! t)"
  proof (intro allI impI)
    fix t assume t: "t < length (cl_ptr_arr st0)"
    have old: "cl_ptr_arr st ! t =
          (if ?i0 \<le> t \<and> t < ?i0 + j then line_at p (t - ?i0) else cl_ptr_arr st0 ! t)"
      using acc t by (simp add: accepted_upto_def)
    show "cl_ptr_arr st' ! t =
          (if ?i0 \<le> t \<and> t < ?i0 + Suc j then line_at p (t - ?i0) else cl_ptr_arr st0 ! t)"
    proof (cases "t = ?i0 + j")
      case True
      then show ?thesis using t la by (simp add: st'_def)
    next
      case False
      then show ?thesis using old by (auto simp add: st'_def)
    qed
  qed
  have a5: "length (cnt_lines_per_set st') = length (cnt_lines_per_set st0)" by (simp add: st'_def lc)
  have a6: "\<forall>s<length (cnt_lines_per_set st0).
        cnt_lines_per_set st' ! s =
          (if 64 * grp \<le> s \<and> s < 64 * grp + Suc j
           then cnt_lines_per_set st0 ! s + 1 else cnt_lines_per_set st0 ! s)"
  proof (intro allI impI)
    fix s assume s: "s < length (cnt_lines_per_set st0)"
    have old: "cnt_lines_per_set st ! s =
          (if 64 * grp \<le> s \<and> s < 64 * grp + j
           then cnt_lines_per_set st0 ! s + 1 else cnt_lines_per_set st0 ! s)"
      using acc s by (simp add: accepted_upto_def)
    show "cnt_lines_per_set st' ! s =
          (if 64 * grp \<le> s \<and> s < 64 * grp + Suc j
           then cnt_lines_per_set st0 ! s + 1 else cnt_lines_per_set st0 ! s)"
    proof (cases "s = 64 * grp + j")
      case True
      then show ?thesis using s lc cj by (simp add: st'_def)
    next
      case False
      then show ?thesis using old by (auto simp add: st'_def)
    qed
  qed
  have a7: "\<forall>i<64. memory st' (line_at p i) =
        Some (if i < Suc j then cl0\<lparr>cache_set := of_nat (64 * grp + i)\<rparr> else cl0)"
  proof (intro allI impI)
    fix i :: nat assume i: "i < 64"
    have old: "memory st (line_at p i) =
        Some (if i < j then cl0\<lparr>cache_set := of_nat (64 * grp + i)\<rparr> else cl0)"
      using acc i by (simp add: accepted_upto_def)
    show "memory st' (line_at p i) =
        Some (if i < Suc j then cl0\<lparr>cache_set := of_nat (64 * grp + i)\<rparr> else cl0)"
    proof (cases "i = j")
      case True
      then show ?thesis by (simp add: st'_def)
    next
      case False
      then have "line_at p i \<noteq> line_at p j" using line_at_inj [OF al i j] by simp
      then show ?thesis using old False by (auto simp add: st'_def)
    qed
  qed
  have a8: "\<forall>a. a \<notin> line_at p ` {0..<64} \<longrightarrow> memory st' a = memory st0 a"
  proof (intro allI impI)
    fix a assume a: "a \<notin> line_at p ` {0..<64}"
    then have "a \<noteq> line_at p j" using j by auto
    moreover have "memory st a = memory st0 a" using acc a by (simp add: accepted_upto_def)
    ultimately show "memory st' a = memory st0 a" by (simp add: st'_def)
  qed
  have "accepted_upto p grp st0 (Suc j) st'"
    unfolding accepted_upto_def using a1 a2 a3 a4 a5 a6 a7 a8 by blast
  then show ?thesis using run by blast
qed


lemma accept_loop:
  assumes k: "6 \<le> k" "k \<le> 16" and grp: "grp < 2 ^ (k - 6)"
    and slots: "\<forall>i<64. get_phys_cache_set ctx os d (line_at p i) = Inr (of_nat (64 * grp + i))"
    and al: "page_aligned p"
    and len: "length (cnt_lines_per_set st0) = 2 ^ k"
    and room: "unat (cl_ptr_idx st0) + 64 \<le> length (cl_ptr_arr st0)"
    and small: "length (cl_ptr_arr st0) < 4294967296"
    and zero: "\<forall>i<64. memory st0 (line_at p i) = Some cl0"
  shows "j \<le> 64 \<Longrightarrow>
         \<exists>st. foldE (priv_accept_line ctx os d p) [0..<j] st0 = Inr st \<and> accepted_upto p grp st0 j st"
proof (induction j)
  case 0
  then show ?case using accepted_upto_0 [OF zero] by simp
next
  case (Suc j)
  then have j: "j < 64" by simp
  obtain st where st: "foldE (priv_accept_line ctx os d p) [0..<j] st0 = Inr st"
    "accepted_upto p grp st0 j st"
    using Suc.IH j by auto
  have slot: "get_phys_cache_set ctx os d (line_at p j) = Inr (of_nat (64 * grp + j))"
    using slots j by simp
  obtain st' where "priv_accept_line ctx os d p j st = Inr st'" "accepted_upto p grp st0 (Suc j) st'"
    using accept_line_step [OF k grp slot al len room small j st(2)] by blast
  then show ?case using st(1) by (simp add: foldE_append)
qed

lemma zero_page_line: "i < 64 \<Longrightarrow> zero_page m p (line_at p i) = Some cl0"
  by (simp add: zero_page_def CACHE_GROUP_SIZE_def PAGE_SIZE_def CACHELINE_SIZE_def)

lemma zero_page_other: "a \<notin> line_at p ` {0..<64} \<Longrightarrow> zero_page m p a = m a"
  by (simp add: zero_page_def CACHE_GROUP_SIZE_def PAGE_SIZE_def CACHELINE_SIZE_def)

lemma group_size_64: "CACHE_GROUP_SIZE = 64"
  by (simp add: CACHE_GROUP_SIZE_def PAGE_SIZE_def CACHELINE_SIZE_def)

lemma priv_page_cases:
  assumes g: "geometry ctx k" and ps: "page_size os = 4096" and al: "page_aligned p"
    and nz: "p \<noteq> 0" and inv: "priv_inv ctx st"
    and guard: "cl_ptr_idx st < nr_of_cachelines ctx"
    and t: "get_phys_cache_set ctx os d p = Inr s0"
  shows "\<exists>grp<2 ^ (k - 6).
           (\<forall>i<64. get_phys_cache_set ctx os d (line_at p i) = Inr (of_nat (64 * grp + i))) \<and>
           (if associativity ctx \<le> cnt_lines_per_set st ! (64 * grp)
            then priv_page ctx os d st p =
                   Inr (st\<lparr>memory := (zero_page (memory st) p)(p \<mapsto> cl0\<lparr>prev := cls_to_del st\<rparr>),
                          cls_to_del := p\<rparr>)
            else \<exists>st'. priv_page ctx os d st p = Inr st' \<and>
                   accepted_upto p grp (st\<lparr>memory := zero_page (memory st) p\<rparr>) 64 st')"
proof -
  have k: "6 \<le> k" "k \<le> 16" using g by (simp_all add: geometry_def)
  obtain grp where grp: "grp < 2 ^ (k - 6)"
    and slots: "\<forall>i<64. get_phys_cache_set ctx os d (line_at p i) = Inr (of_nat (64 * grp + i))"
    using page_slots [OF g ps al t] by blast
  have s0: "s0 = of_nat (64 * grp)" using slots [rule_format, of 0] t by simp
  have us: "unat s0 = 64 * grp" "64 * grp < 2 ^ k"
    using unat_set_index [OF k(2,1) grp, of 0] s0 by simp_all
  have len: "length (cnt_lines_per_set st) = 2 ^ k"
    using inv geometry_unat_sets [OF g] by (simp add: priv_inv_def)
  let ?st0 = "st\<lparr>memory := zero_page (memory st) p\<rparr>"
  have zp: "zero_page (memory st) p p = Some cl0" using zero_page_line [of 0 "memory st" p] by simp
  show ?thesis
  proof (cases "associativity ctx \<le> cnt_lines_per_set st ! (64 * grp)")
    case True
    then have "priv_page ctx os d st p =
                   Inr (st\<lparr>memory := (zero_page (memory st) p)(p \<mapsto> cl0\<lparr>prev := cls_to_del st\<rparr>),
                          cls_to_del := p\<rparr>)"
      using nz t us len zp by (simp add: priv_page_def Let_def not_less)
    then show ?thesis using grp slots True by auto
  next
    case False
    have room: "unat (cl_ptr_idx ?st0) + 64 \<le> length (cl_ptr_arr ?st0)"
      using idx_room [OF g inv guard] by simp
    have small: "length (cl_ptr_arr ?st0) < 4294967296"
      using inv unat32_bound [of "nr_of_cachelines ctx"] by (simp add: priv_inv_def)
    have zero: "\<forall>i<64. memory ?st0 (line_at p i) = Some cl0" by (simp add: zero_page_line)
    have len0: "length (cnt_lines_per_set ?st0) = 2 ^ k" using len by simp
    obtain st' where "foldE (priv_accept_line ctx os d p) [0..<64] ?st0 = Inr st'"
      "accepted_upto p grp ?st0 64 st'"
      using accept_loop [OF k grp slots al len0 room small zero, of 64] by auto
    then have "priv_page ctx os d st p = Inr st' \<and> accepted_upto p grp ?st0 64 st'"
      using nz t us len False by (simp add: priv_page_def Let_def group_size_64)
    then show ?thesis using grp slots False by auto
  qed
qed

lemma priv_page_Inr:
  assumes "priv_page ctx os d st p = Inr st'"
  shows "p \<noteq> 0 \<and> (\<exists>s0. get_phys_cache_set ctx os d p = Inr s0)"
  using assms by (cases "get_phys_cache_set ctx os d p") (auto simp add: priv_page_def Let_def split: if_splits)

lemma same_group:
  fixes g grp i :: nat
  assumes "i < 64"
  shows "(64 * grp \<le> 64 * g + i \<and> 64 * g + i < 64 * grp + 64) \<longleftrightarrow> g = grp"
  using assms by auto

lemma accepted_inv:
  assumes g: "geometry ctx k" and inv: "priv_inv ctx st"
    and guard: "cl_ptr_idx st < nr_of_cachelines ctx"
    and acc: "accepted_upto p grp (st\<lparr>memory := zero_page (memory st) p\<rparr>) 64 st'"
  shows "priv_inv ctx st'"
proof -
  have room: "unat (cl_ptr_idx st) + 64 \<le> length (cl_ptr_arr st)" by (rule idx_room [OF g inv guard])
  have small: "length (cl_ptr_arr st) < 4294967296"
    using inv unat32_bound [of "nr_of_cachelines ctx"] by (simp add: priv_inv_def)
  have "cl_ptr_idx st' = cl_ptr_idx st + of_nat 64" using acc by (simp add: accepted_upto_def)
  moreover have "unat (cl_ptr_idx st + of_nat 64) = unat (cl_ptr_idx st) + 64"
    using room small by (intro unat_idx_add) linarith
  ultimately have i: "64 dvd unat (cl_ptr_idx st')" using inv by (simp add: priv_inv_def)
  have l: "length (cnt_lines_per_set st') = unat (sets ctx)"
    "length (cl_ptr_arr st') = unat (nr_of_cachelines ctx)"
    using acc inv by (simp_all add: accepted_upto_def priv_inv_def)
  have c: "\<forall>s<unat (sets ctx). cnt_lines_per_set st' ! s =
          (if 64 * grp \<le> s \<and> s < 64 * grp + 64
           then cnt_lines_per_set st ! s + 1 else cnt_lines_per_set st ! s)"
    using acc inv by (simp add: accepted_upto_def priv_inv_def)
  have u: "\<forall>g i. i < 64 \<and> 64 * g + i < unat (sets ctx) \<longrightarrow>
        cnt_lines_per_set st' ! (64 * g + i) = cnt_lines_per_set st' ! (64 * g)"
  proof (intro allI impI)
    fix g i :: nat assume a: "i < 64 \<and> 64 * g + i < unat (sets ctx)"
    then have b: "64 * g < unat (sets ctx)" by linarith
    have old: "cnt_lines_per_set st ! (64 * g + i) = cnt_lines_per_set st ! (64 * g)"
      using inv a by (simp add: priv_inv_def)
    have "(64 * grp \<le> 64 * g + i \<and> 64 * g + i < 64 * grp + 64) = (g = grp)"
      using a by (intro same_group) simp
    moreover have "(64 * grp \<le> 64 * g \<and> 64 * g < 64 * grp + 64) = (g = grp)"
      using same_group [of 0 grp g] by simp
    ultimately have "cnt_lines_per_set st' ! (64 * g + i) =
          (if g = grp then cnt_lines_per_set st ! (64 * g + i) + 1 else cnt_lines_per_set st ! (64 * g + i))"
      and "cnt_lines_per_set st' ! (64 * g) =
          (if g = grp then cnt_lines_per_set st ! (64 * g) + 1 else cnt_lines_per_set st ! (64 * g))"
      using c [rule_format, OF b] c [rule_format, of "64 * g + i"] a by simp_all
    then show "cnt_lines_per_set st' ! (64 * g + i) = cnt_lines_per_set st' ! (64 * g)"
      by (simp only: old)
  qed
  show ?thesis unfolding priv_inv_def using i l u by blast
qed

lemma priv_page_inv:
  assumes g: "geometry ctx k" and ps: "page_size os = 4096" and al: "page_aligned p"
    and inv: "priv_inv ctx st" and guard: "cl_ptr_idx st < nr_of_cachelines ctx"
    and run: "priv_page ctx os d st p = Inr st'"
  shows "priv_inv ctx st'"
proof -
  obtain s0 where nz: "p \<noteq> 0" and t: "get_phys_cache_set ctx os d p = Inr s0"
    using priv_page_Inr [OF run] by blast
  obtain grp where c: "if associativity ctx \<le> cnt_lines_per_set st ! (64 * grp)
            then priv_page ctx os d st p =
                   Inr (st\<lparr>memory := (zero_page (memory st) p)(p \<mapsto> cl0\<lparr>prev := cls_to_del st\<rparr>),
                          cls_to_del := p\<rparr>)
            else \<exists>st'. priv_page ctx os d st p = Inr st' \<and>
                   accepted_upto p grp (st\<lparr>memory := zero_page (memory st) p\<rparr>) 64 st'"
    using priv_page_cases [OF g ps al nz inv guard t] by blast
  show ?thesis
  proof (cases "associativity ctx \<le> cnt_lines_per_set st ! (64 * grp)")
    case True
    then have "st' = st\<lparr>memory := (zero_page (memory st) p)(p \<mapsto> cl0\<lparr>prev := cls_to_del st\<rparr>),
                          cls_to_del := p\<rparr>"
      using c run by simp
    then show ?thesis using inv by (simp add: priv_inv_def)
  next
    case False
    then have "accepted_upto p grp (st\<lparr>memory := zero_page (memory st) p\<rparr>) 64 st'"
      using c run by auto
    then show ?thesis by (rule accepted_inv [OF g inv guard])
  qed
qed

lemma priv_loop_inv:
  assumes g: "geometry ctx k" and ps: "page_size os = 4096"
  shows "\<forall>p \<in> set pages. page_aligned p \<Longrightarrow> priv_inv ctx st \<Longrightarrow>
         priv_loop ctx os d st pages = Inr st' \<Longrightarrow> priv_inv ctx st'"
proof (induction pages arbitrary: st)
  case Nil
  then show ?case by simp
next
  case (Cons p ps')
  show ?case
  proof (cases "cl_ptr_idx st < nr_of_cachelines ctx")
    case False
    then show ?thesis using Cons.prems by simp
  next
    case True
    then obtain st1 where st1: "priv_page ctx os d st p = Inr st1"
      "priv_loop ctx os d st1 ps' = Inr st'"
      using Cons.prems(3) by (cases "priv_page ctx os d st p") simp_all
    have "priv_inv ctx st1"
      using priv_page_inv [OF g ps _ Cons.prems(2) True st1(1)] Cons.prems(1) by simp
    then show ?thesis using Cons.IH [OF _ _ st1(2)] Cons.prems(1) by simp
  qed
qed

lemma priv_init_inv:
  assumes "length arr = unat (nr_of_cachelines ctx)"
  shows "priv_inv ctx (priv_init ctx m arr del)"
  using assms by (simp add: priv_inv_def priv_init_def)

lemma in_group_iff:
  fixes s grp :: nat
  shows "(\<exists>i<64. s = 64 * grp + i) \<longleftrightarrow> (64 * grp \<le> s \<and> s < 64 * grp + 64)"
proof
  assume "64 * grp \<le> s \<and> s < 64 * grp + 64"
  then have "s - 64 * grp < 64 \<and> s = 64 * grp + (s - 64 * grp)" by linarith
  then show "\<exists>i<64. s = 64 * grp + i" by blast
qed auto

lemma slot_set_group:
  assumes g: "geometry ctx k" and i: "i < 64"
  shows "slot_set ctx e i = 64 * (unat (e AND mask 54) mod 2 ^ (k - 6)) + i"
proof -
  have k: "6 \<le> k" using g by (simp add: geometry_def)
  have "(unat (e AND mask 54) * 4096 + i * 64) div 64 = 64 * unat (e AND mask 54) + i"
    by simp
  then show ?thesis
    using mod_group [OF k i, of "unat (e AND mask 54)"]
    by (simp only: slot_set_def PAGE_SIZE_def CACHELINE_SIZE_def geometry_unat_sets [OF g])
qed

lemma page_first_set:
  assumes g: "geometry ctx k" and ps: "page_size os = 4096" and al: "page_aligned p"
    and t: "get_phys_cache_set ctx os d p = Inr s0"
    and rd: "pread os 0 8 (p div page_size os * 8) = (8, e)"
  shows "unat s0 = slot_set ctx e 0"
proof -
  have k: "sets ctx = 2 ^ k" "6 \<le> k" "k \<le> 16" using g by (simp_all add: geometry_def)
  obtain pa where pa: "get_phys_addr os d 0 p = Inr (0, pa)"
    and s0: "s0 = get_cache_set_helper (sets ctx) pa"
    using get_phys_cache_set_Inr [OF t] by blast
  have nz: "page_size os \<noteq> 0" using ps by simp
  obtain entry where en: "pagemap_get_entry os d p = Inr (Some entry)"
    and pf: "pfn entry = e AND mask 54"
    using pagemap_get_entry_full [OF nz rd, of d] by blast
  have m: "p mod 4096 = 0" using al by (simp add: page_aligned_def PAGE_SIZE_def)
  have "pa = (e AND mask 54) * 4096"
    using pa en pf by (auto simp add: get_phys_addr_def ps m split: if_splits)
  then have "unat pa = (unat (e AND mask 54) * 4096) mod 18446744073709551616"
    by (simp add: unat_word_ariths)
  moreover have "(18446744073709551616 :: nat) = 4096 * 4503599627370496" by simp
  ultimately have u: "unat pa = 4096 * (unat (e AND mask 54) mod 4503599627370496)"
    by (simp only: mult.commute [of _ 4096] mult_mod_right)
  have "(2::nat) ^ (k - 6) dvd 2 ^ 52" using k(3) by (intro le_imp_power_dvd) simp
  then have dv: "(2::nat) ^ (k - 6) dvd 4503599627370496" by simp
  have "unat s0 = (unat pa div 64) mod 2 ^ k"
    by (simp only: s0 k(1) get_cache_set_helper_pow [OF k(3)])
  also have "\<dots> = (64 * (unat (e AND mask 54) mod 4503599627370496) + 0) mod 2 ^ k"
    by (simp add: u)
  also have "\<dots> = 64 * ((unat (e AND mask 54) mod 4503599627370496) mod 2 ^ (k - 6)) + 0"
    by (rule mod_group [OF k(2)]) simp
  also have "\<dots> = 64 * (unat (e AND mask 54) mod 2 ^ (k - 6)) + 0"
    by (simp only: mod_mod_cancel [OF dv])
  finally show ?thesis using slot_set_group [OF g, of 0 e] by simp
qed

text \<open>
  C4: in the privileged builder, run on a cache with a power of two of sets (at least
  one page of them) and on page-aligned pages, consider any state \<open>st\<close> that the
  \<^verbatim>\<open>while\<close> loop reaches and a page \<open>p\<close> allocated in it whose translation succeeds,
  \<open>e\<close> being the pagemap entry that \<^verbatim>\<open>pread\<close> delivers for the page. The line \<open>i\<close>
  of the page translates to the set \<open>slot_set ctx e i\<close>, the set of its physical address.
  If the counter of the set of some line of the page has reached \<open>associativity\<close>, the
  page is rejected: it is put in front of the list \<open>cls_to_del\<close> and neither the
  counters, nor the index, nor the pointer array change. Otherwise all
  \<open>CACHE_GROUP_SIZE\<close> lines are accepted: each is tagged with the set of its physical
  address and stored in the pointer array, and the counter of a set is incremented by one
  if the set is that of a line of the page and unchanged otherwise.
\<close>

theorem priv_page_atomic:
  assumes g: "geometry ctx k" and ps: "page_size os = 4096"
    and la: "length arr = unat (nr_of_cachelines ctx)"
    and als: "\<forall>q \<in> set pages. page_aligned q" and al: "page_aligned p" and nz: "p \<noteq> 0"
    and run: "priv_loop ctx os d (priv_init ctx m arr del) pages = Inr st"
    and guard: "cl_ptr_idx st < nr_of_cachelines ctx"
    and t: "get_phys_cache_set ctx os d p = Inr s0"
    and rd: "pread os 0 8 (p div page_size os * 8) = (8, e)"
  shows "(\<forall>i<CACHE_GROUP_SIZE.
            map_sum id unat (get_phys_cache_set ctx os d (line_at p i)) = Inr (slot_set ctx e i) \<and>
            slot_set ctx e i < length (cnt_lines_per_set st)) \<and>
         (if \<exists>i<CACHE_GROUP_SIZE. associativity ctx \<le> cnt_lines_per_set st ! slot_set ctx e i
          then priv_page ctx os d st p =
                 Inr (st\<lparr>memory := (zero_page (memory st) p)(p \<mapsto> cl0\<lparr>prev := cls_to_del st\<rparr>),
                        cls_to_del := p\<rparr>)
          else \<exists>st'. priv_page ctx os d st p = Inr st' \<and>
                 (\<forall>i<CACHE_GROUP_SIZE.
                     map_option (unat \<circ> cache_set) (memory st' (line_at p i)) =
                       Some (slot_set ctx e i) \<and>
                     cl_ptr_arr st' ! (unat (cl_ptr_idx st) + i) = line_at p i) \<and>
                 cl_ptr_idx st' = cl_ptr_idx st + of_nat CACHE_GROUP_SIZE \<and>
                 cls_to_del st' = cls_to_del st \<and>
                 length (cl_ptr_arr st') = length (cl_ptr_arr st) \<and>
                 length (cnt_lines_per_set st') = length (cnt_lines_per_set st) \<and>
                 (\<forall>s<length (cnt_lines_per_set st).
                     cnt_lines_per_set st' ! s =
                       (if \<exists>i<CACHE_GROUP_SIZE. s = slot_set ctx e i
                        then cnt_lines_per_set st ! s + 1 else cnt_lines_per_set st ! s)))"
proof -
  have k: "6 \<le> k" "k \<le> 16" using g by (simp_all add: geometry_def)
  have inv: "priv_inv ctx st"
    by (rule priv_loop_inv [OF g ps als priv_init_inv [OF la] run])
  have len: "length (cnt_lines_per_set st) = 2 ^ k"
    using inv geometry_unat_sets [OF g] by (simp add: priv_inv_def)
  obtain grp where grp: "grp < 2 ^ (k - 6)"
    and slots: "\<forall>i<64. get_phys_cache_set ctx os d (line_at p i) = Inr (of_nat (64 * grp + i))"
    and c: "if associativity ctx \<le> cnt_lines_per_set st ! (64 * grp)
            then priv_page ctx os d st p =
                   Inr (st\<lparr>memory := (zero_page (memory st) p)(p \<mapsto> cl0\<lparr>prev := cls_to_del st\<rparr>),
                          cls_to_del := p\<rparr>)
            else \<exists>st'. priv_page ctx os d st p = Inr st' \<and>
                   accepted_upto p grp (st\<lparr>memory := zero_page (memory st) p\<rparr>) 64 st'"
    using priv_page_cases [OF g ps al nz inv guard t] by blast
  have ug: "\<forall>i<64. unat (of_nat (64 * grp + i) :: 16 word) = 64 * grp + i \<and> 64 * grp + i < 2 ^ k"
    using unat_set_index [OF k(2,1) grp] by simp
  have "s0 = of_nat (64 * grp + 0)" using slots [rule_format, of 0] t by simp
  then have "unat s0 = 64 * grp + 0" using ug [rule_format, of 0] by simp
  then have "64 * grp + 0 = slot_set ctx e 0"
    using page_first_set [OF g ps al t rd] by simp
  then have "grp = unat (e AND mask 54) mod 2 ^ (k - 6)"
    using slot_set_group [OF g, of 0 e] by simp
  then have S: "\<forall>i<64. slot_set ctx e i = 64 * grp + i"
    using slot_set_group [OF g] by simp
  have uni: "\<forall>i<64. cnt_lines_per_set st ! (64 * grp + i) = cnt_lines_per_set st ! (64 * grp)"
    using inv ug geometry_unat_sets [OF g] by (simp add: priv_inv_def)
  have full: "(\<exists>i<64. associativity ctx \<le> cnt_lines_per_set st ! slot_set ctx e i) =
              (associativity ctx \<le> cnt_lines_per_set st ! (64 * grp))"
  proof
    assume "\<exists>i<64. associativity ctx \<le> cnt_lines_per_set st ! slot_set ctx e i"
    then show "associativity ctx \<le> cnt_lines_per_set st ! (64 * grp)" using S uni by auto
  next
    assume "associativity ctx \<le> cnt_lines_per_set st ! (64 * grp)"
    moreover have "slot_set ctx e 0 = 64 * grp" using S by simp
    ultimately show "\<exists>i<64. associativity ctx \<le> cnt_lines_per_set st ! slot_set ctx e i"
      by (intro exI [of _ 0]) simp
  qed
  have mem: "\<forall>s. (\<exists>i<64. s = slot_set ctx e i) = (64 * grp \<le> s \<and> s < 64 * grp + 64)"
  proof
    fix s
    have "(\<exists>i<64. s = slot_set ctx e i) = (\<exists>i<64. s = 64 * grp + i)" using S by auto
    then show "(\<exists>i<64. s = slot_set ctx e i) = (64 * grp \<le> s \<and> s < 64 * grp + 64)"
      by (simp only: in_group_iff)
  qed
  have first: "\<forall>i<64. map_sum id unat (get_phys_cache_set ctx os d (line_at p i)) =
                  Inr (slot_set ctx e i) \<and>
               slot_set ctx e i < length (cnt_lines_per_set st)"
    using slots ug S len by simp
  have second: "if \<exists>i<64. associativity ctx \<le> cnt_lines_per_set st ! slot_set ctx e i
          then priv_page ctx os d st p =
                 Inr (st\<lparr>memory := (zero_page (memory st) p)(p \<mapsto> cl0\<lparr>prev := cls_to_del st\<rparr>),
                        cls_to_del := p\<rparr>)
          else \<exists>st'. priv_page ctx os d st p = Inr st' \<and>
                 (\<forall>i<64.
                     map_option (unat \<circ> cache_set) (memory st' (line_at p i)) =
                       Some (slot_set ctx e i) \<and>
                     cl_ptr_arr st' ! (unat (cl_ptr_idx st) + i) = line_at p i) \<and>
                 cl_ptr_idx st' = cl_ptr_idx st + of_nat 64 \<and>
                 cls_to_del st' = cls_to_del st \<and>
                 length (cl_ptr_arr st') = length (cl_ptr_arr st) \<and>
                 length (cnt_lines_per_set st') = length (cnt_lines_per_set st) \<and>
                 (\<forall>s<length (cnt_lines_per_set st).
                     cnt_lines_per_set st' ! s =
                       (if \<exists>i<64. s = slot_set ctx e i
                        then cnt_lines_per_set st ! s + 1 else cnt_lines_per_set st ! s))"
  proof (cases "associativity ctx \<le> cnt_lines_per_set st ! (64 * grp)")
    case True
    then show ?thesis using c full by simp
  next
    case False
    then obtain st' where st': "priv_page ctx os d st p = Inr st'"
      and acc: "accepted_upto p grp (st\<lparr>memory := zero_page (memory st) p\<rparr>) 64 st'"
      using c by auto
    have room: "unat (cl_ptr_idx st) + 64 \<le> length (cl_ptr_arr st)" by (rule idx_room [OF g inv guard])
    have a: "\<forall>i<64. map_option (unat \<circ> cache_set) (memory st' (line_at p i)) =
                       Some (slot_set ctx e i) \<and>
                      cl_ptr_arr st' ! (unat (cl_ptr_idx st) + i) = line_at p i"
      using acc room ug S by (simp add: accepted_upto_def)
    have b: "cl_ptr_idx st' = cl_ptr_idx st + of_nat 64" "cls_to_del st' = cls_to_del st"
      "length (cnt_lines_per_set st') = length (cnt_lines_per_set st)"
      "length (cl_ptr_arr st') = length (cl_ptr_arr st)"
      using acc by (simp_all add: accepted_upto_def)
    have "\<forall>s<length (cnt_lines_per_set st).
                      cnt_lines_per_set st' ! s =
                        (if 64 * grp \<le> s \<and> s < 64 * grp + 64
                         then cnt_lines_per_set st ! s + 1 else cnt_lines_per_set st ! s)"
      using acc by (simp add: accepted_upto_def)
    then have d: "\<forall>s<length (cnt_lines_per_set st).
                      cnt_lines_per_set st' ! s =
                        (if \<exists>i<64. s = slot_set ctx e i
                         then cnt_lines_per_set st ! s + 1 else cnt_lines_per_set st ! s)"
      by (simp only: mem)
    show ?thesis using False full st' a b d by auto
  qed
  show ?thesis
    unfolding group_size_64 using first second by blast
qed

lemma geometry_ctx_small: "geometry ctx_small 7"
  by (simp add: geometry_def ctx_small_def)

lemma page_aligned_example: "page_aligned 0x10000" "page_aligned 0x20000"
  by (simp_all add: page_aligned_def PAGE_SIZE_def)

lemma mask_5: "(5 :: 64 word) AND mask 54 = 5"
  by (simp add: mask_eq_exp_minus_1)

lemma get_phys_addr_example:
  "get_phys_addr (os_entry 5) 0 0 0x10000 = Inr (0, 0x5000)"
  "get_phys_addr (os_entry 5) 0 0 0x20000 = Inr (0, 0x5000)"
proof -
  obtain entry where e: "pagemap_get_entry (os_entry 5) 0 0x10000 = Inr (Some entry)"
    and p: "pfn entry = 5 AND mask 54"
    using pagemap_get_entry_full [of "os_entry 5" "0x10000" 5 0]
    by (auto simp add: os_entry_simps)
  then show "get_phys_addr (os_entry 5) 0 0 0x10000 = Inr (0, 0x5000)"
    by (simp add: get_phys_addr_def os_entry_simps mask_5)
  obtain entry where e: "pagemap_get_entry (os_entry 5) 0 0x20000 = Inr (Some entry)"
    and p: "pfn entry = 5 AND mask 54"
    using pagemap_get_entry_full [of "os_entry 5" "0x20000" 5 0]
    by (auto simp add: os_entry_simps)
  then show "get_phys_addr (os_entry 5) 0 0 0x20000 = Inr (0, 0x5000)"
    by (simp add: get_phys_addr_def os_entry_simps mask_5)
qed

lemma get_phys_cache_set_example:
  "get_phys_cache_set ctx_small (os_entry 5) 0 0x10000 = Inr 64"
  "get_phys_cache_set ctx_small (os_entry 5) 0 0x20000 = Inr 64"
  by (simp_all add: get_phys_cache_set_def get_phys_addr_example get_cache_set_helper_def
      SET_MASK_def CACHELINE_SIZE_def ctx_small_def)

lemma slot_set_small: "i < 64 \<Longrightarrow> slot_set ctx_small 5 i = 64 + i"
  using slot_set_group [OF geometry_ctx_small, of i 5] by (simp add: mask_5)

lemma pread_example: "pread (os_entry 5) 0 8 (q div page_size (os_entry 5) * 8) = (8, 5)"
  by (simp add: os_entry_simps)

theorem priv_page_atomic_witness:
  "\<exists>st1. priv_page ctx_small (os_entry 5) 0
            (priv_init ctx_small Map.empty (replicate 128 0) 0) 0x10000 = Inr st1 \<and>
         map_option (unat \<circ> cache_set) (memory st1 (line_at 0x10000 3)) = Some 67 \<and>
         cl_ptr_arr st1 ! 3 = line_at 0x10000 3 \<and> cl_ptr_idx st1 = 64 \<and>
         cnt_lines_per_set st1 ! 67 = 1 \<and> cnt_lines_per_set st1 ! 3 = 0 \<and>
         priv_page ctx_small (os_entry 5) 0 st1 0x20000 =
           Inr (st1\<lparr>memory := (zero_page (memory st1) 0x20000)
                                  (0x20000 \<mapsto> cl0\<lparr>prev := cls_to_del st1\<rparr>),
                    cls_to_del := 0x20000\<rparr>)"
proof -
  let ?st = "priv_init ctx_small Map.empty (replicate 128 0) 0"
  let ?os = "os_entry 5"
  have a: "length (replicate 128 (0 :: addr)) = unat (nr_of_cachelines ctx_small)"
    by (simp add: ctx_small_def)
  have b: "\<forall>q \<in> set []. page_aligned q" by simp
  have c: "priv_loop ctx_small ?os 0 ?st [] = Inr ?st" by simp
  have d: "cl_ptr_idx ?st < nr_of_cachelines ctx_small"
    by (simp add: priv_init_def ctx_small_def)
  have e: "(0x10000 :: addr) \<noteq> 0" "(0x20000 :: addr) \<noteq> 0" by simp_all
  have f: "page_size ?os = 4096" by (simp add: os_entry_simps)
  have st: "cnt_lines_per_set ?st = replicate 128 0" "associativity ctx_small = 1"
    "cl_ptr_idx ?st = 0" "nr_of_cachelines ctx_small = 128"
    by (simp_all add: priv_init_def ctx_small_def)
  have n: "\<not> (\<exists>i<CACHE_GROUP_SIZE.
              associativity ctx_small \<le> cnt_lines_per_set ?st ! slot_set ctx_small 5 i)"
    by (auto simp add: st group_size_64 slot_set_small)
  obtain st1 where p1: "priv_page ctx_small ?os 0 ?st 0x10000 = Inr st1"
    and tags: "\<forall>i<CACHE_GROUP_SIZE.
                 map_option (unat \<circ> cache_set) (memory st1 (line_at 0x10000 i)) =
                   Some (slot_set ctx_small 5 i) \<and>
                 cl_ptr_arr st1 ! (unat (cl_ptr_idx ?st) + i) = line_at 0x10000 i"
    and idx: "cl_ptr_idx st1 = cl_ptr_idx ?st + of_nat CACHE_GROUP_SIZE"
    and cnt: "\<forall>s<length (cnt_lines_per_set ?st).
                 cnt_lines_per_set st1 ! s =
                   (if \<exists>i<CACHE_GROUP_SIZE. s = slot_set ctx_small 5 i
                    then cnt_lines_per_set ?st ! s + 1 else cnt_lines_per_set ?st ! s)"
    using priv_page_atomic [OF geometry_ctx_small f a b page_aligned_example(1) e(1) c d
        get_phys_cache_set_example(1) pread_example] n
    by (simp only: if_False) blast
  have i1: "cl_ptr_idx st1 = 64" using idx by (simp add: st group_size_64)
  have in67: "\<exists>i<CACHE_GROUP_SIZE. (67 :: nat) = slot_set ctx_small 5 i"
    by (rule exI [of _ 3]) (simp add: group_size_64 slot_set_small)
  have in64: "\<exists>i<CACHE_GROUP_SIZE. (64 :: nat) = slot_set ctx_small 5 i"
    by (rule exI [of _ 0]) (simp add: group_size_64 slot_set_small)
  have out3: "\<not> (\<exists>i<CACHE_GROUP_SIZE. (3 :: nat) = slot_set ctx_small 5 i)"
    by (auto simp add: group_size_64 slot_set_small)
  have c67: "cnt_lines_per_set st1 ! 67 = 1"
    using cnt [rule_format, of 67] in67 by (simp add: st)
  have c64: "cnt_lines_per_set st1 ! 64 = 1"
    using cnt [rule_format, of 64] in64 by (simp add: st)
  have c3: "cnt_lines_per_set st1 ! 3 = 0"
    using cnt [rule_format, of 3] out3 by (simp add: st)
  have t3: "map_option (unat \<circ> cache_set) (memory st1 (line_at 0x10000 3)) = Some 67"
    "cl_ptr_arr st1 ! 3 = line_at 0x10000 3"
    using tags [rule_format, of 3] by (simp_all add: group_size_64 slot_set_small st)
  have b1: "\<forall>q \<in> set [0x10000]. page_aligned q" using page_aligned_example(1) by simp
  have c1: "priv_loop ctx_small ?os 0 ?st [0x10000] = Inr st1"
    using d p1 by simp
  have d1: "cl_ptr_idx st1 < nr_of_cachelines ctx_small" by (simp add: i1 st)
  have full: "\<exists>i<CACHE_GROUP_SIZE.
              associativity ctx_small \<le> cnt_lines_per_set st1 ! slot_set ctx_small 5 i"
    by (rule exI [of _ 0]) (simp add: group_size_64 slot_set_small c64 st)
  have p2: "priv_page ctx_small ?os 0 st1 0x20000 =
           Inr (st1\<lparr>memory := (zero_page (memory st1) 0x20000)
                                  (0x20000 \<mapsto> cl0\<lparr>prev := cls_to_del st1\<rparr>),
                    cls_to_del := 0x20000\<rparr>)"
    using priv_page_atomic [OF geometry_ctx_small f a b1 page_aligned_example(2) e(2) c1 d1
        get_phys_cache_set_example(2) pread_example] full
    by (simp only: if_True)
  show ?thesis using p1 t3 i1 c67 c3 p2 by blast
qed

end
